theory Spec2Isabelle
  imports Main "HOL-Library.Sublist"
begin

section \<open>Text and character classes\<close>

text \<open>
  The build script \<^verbatim>\<open>scripts/build_antlr_js.py\<close> works on Python \<^verbatim>\<open>str\<close> values.
  A text is modelled as a \<^typ>\<open>string\<close>, one \<^typ>\<open>char\<close> per code point, which covers the
  code points 0 to 255. The classes below are the ones Python's \<^verbatim>\<open>re\<close> module and
  \<^verbatim>\<open>str.rstrip\<close> use for \<^verbatim>\<open>str\<close> arguments, restricted to that range.
\<close>

definition code_point :: "char \<Rightarrow> nat" where
  "code_point c = of_char c"

text \<open>\<^verbatim>\<open>\s\<close> and \<^verbatim>\<open>str.isspace\<close>: TAB to CR, FS to US, space, NEL and NBSP.\<close>

definition is_space :: "char \<Rightarrow> bool" where
  "is_space c = (let n = code_point c in
     (9 \<le> n \<and> n \<le> 13) \<or> (28 \<le> n \<and> n \<le> 32) \<or> n = 133 \<or> n = 160)"

definition is_digit :: "char \<Rightarrow> bool" where
  "is_digit c = (let n = code_point c in 48 \<le> n \<and> n \<le> 57)"

definition is_ascii_alpha :: "char \<Rightarrow> bool" where
  "is_ascii_alpha c = (let n = code_point c in (65 \<le> n \<and> n \<le> 90) \<or> (97 \<le> n \<and> n \<le> 122))"

text \<open>The alphanumeric code points between 128 and 255.\<close>

definition is_latin1_alnum :: "char \<Rightarrow> bool" where
  "is_latin1_alnum c = (let n = code_point c in
     n = 170 \<or> n = 178 \<or> n = 179 \<or> n = 181 \<or> n = 185 \<or> n = 186 \<or> (188 \<le> n \<and> n \<le> 190)
     \<or> (192 \<le> n \<and> n \<le> 214) \<or> (216 \<le> n \<and> n \<le> 246) \<or> 248 \<le> n)"

text \<open>\<^verbatim>\<open>\w\<close>: alphanumeric or underscore.\<close>

definition is_word :: "char \<Rightarrow> bool" where
  "is_word c = (is_ascii_alpha c \<or> is_digit c \<or> c = CHR ''_'' \<or> is_latin1_alnum c)"

text \<open>\<^verbatim>\<open>[a-zA-Z_0-9]\<close>\<close>

definition is_ident_char :: "char \<Rightarrow> bool" where
  "is_ident_char c = (is_ascii_alpha c \<or> c = CHR ''_'' \<or> is_digit c)"

text \<open>The test \<^verbatim>\<open>content[j] in ' \t\n\r'\<close> of \<^verbatim>\<open>remove_block\<close>.\<close>

definition is_blank :: "char \<Rightarrow> bool" where
  "is_blank c = (c = CHR '' '' \<or> c = CHR 0x09 \<or> c = CHR 0x0A \<or> c = CHR 0x0D)"

section \<open>The regular expressions of the script\<close>

text \<open>
  Every pattern of the script is a sequence of literal text, an optional character
  (\<^verbatim>\<open>!?\<close>, \<^verbatim>\<open>;?\<close>, \<^verbatim>\<open>(\?)?\<close>), one character of a class, and greedy repetitions of a class
  (\<^verbatim>\<open>\w+\<close>, \<^verbatim>\<open>\s*\<close>). In each pattern the item after a repetition or an option starts with a
  character outside the repeated class, so giving back characters never helps and the
  greedy left-to-right match below is the match \<^verbatim>\<open>re\<close> finds.
\<close>

datatype item =
    Lit string
  | Opt char
  | One "char \<Rightarrow> bool"
  | Plus "char \<Rightarrow> bool"
  | Star "char \<Rightarrow> bool"

text \<open>One item at the head of the text: the text it matched and the text left.\<close>

fun match_item :: "item \<Rightarrow> string \<Rightarrow> (string \<times> string) option" where
  "match_item (Lit l) s =
     (if take (length l) s = l then Some (l, drop (length l) s) else None)"
| "match_item (Opt c) [] = Some ([], [])"
| "match_item (Opt c) (x # xs) = (if x = c then Some ([x], xs) else Some ([], x # xs))"
| "match_item (One P) [] = None"
| "match_item (One P) (x # xs) = (if P x then Some ([x], xs) else None)"
| "match_item (Plus P) s =
     (if takeWhile P s = [] then None else Some (takeWhile P s, dropWhile P s))"
| "match_item (Star P) s = Some (takeWhile P s, dropWhile P s)"

text \<open>
  A pattern at the head of the text: the texts matched by its items, in order, and the
  text left.
\<close>

fun match_items :: "item list \<Rightarrow> string \<Rightarrow> (string list \<times> string) option" where
  "match_items [] s = Some ([], s)"
| "match_items (it # its) s =
     (case match_item it s of
        None \<Rightarrow> None
      | Some (g, r) \<Rightarrow>
          (case match_items its r of
             None \<Rightarrow> None
           | Some (gs, r') \<Rightarrow> Some (g # gs, r')))"

text \<open>
  \<^verbatim>\<open>re.match(pattern, s)\<close>: the matched item texts and \<^verbatim>\<open>match.end()\<close>, or nothing.
\<close>

definition re_match :: "item list \<Rightarrow> string \<Rightarrow> (string list \<times> nat) option" where
  "re_match p s =
     (case match_items p s of
        None \<Rightarrow> None
      | Some (gs, r) \<Rightarrow> Some (gs, length s - length r))"

text \<open>
  \<^verbatim>\<open>re.sub(pattern, repl, s)\<close>: scan from the left; where the pattern matches, emit the
  replacement and go on at the end of the match, else copy one character. Every pattern
  of the script starts with a literal character, so a match is never empty and
  \<open>drop (e - 1) cs\<close> is the text from \<^verbatim>\<open>match.end()\<close> on.
\<close>

fun re_sub :: "item list \<Rightarrow> (string list \<Rightarrow> string) \<Rightarrow> string \<Rightarrow> string" where
  "re_sub p f [] = []"
| "re_sub p f (c # cs) =
     (case re_match p (c # cs) of
        None \<Rightarrow> c # re_sub p f cs
      | Some (gs, e) \<Rightarrow> f gs @ re_sub p f (drop (e - 1) cs))"

text \<open>
  \<^verbatim>\<open>re.findall(pattern, s)\<close> for a pattern with one group, held by item \<open>k\<close>: the group's
  text at every match, from the left.
\<close>

fun re_findall :: "item list \<Rightarrow> nat \<Rightarrow> string \<Rightarrow> string list" where
  "re_findall p k [] = []"
| "re_findall p k (c # cs) =
     (case re_match p (c # cs) of
        None \<Rightarrow> re_findall p k cs
      | Some (gs, e) \<Rightarrow> (gs ! k) # re_findall p k (drop (e - 1) cs))"

section \<open>Exceptions\<close>

text \<open>
  The exceptions the script can meet: \<^verbatim>\<open>FileNotFoundError\<close> from reading a file that does
  not exist, and \<^verbatim>\<open>re.error\<close> from a pattern that \<^verbatim>\<open>re\<close> cannot compile.
\<close>

datatype error = FileNotFoundError | ReError

section \<open>Block Stripper\<close>

text \<open>
  The pattern of \<^verbatim>\<open>remove_block\<close>: an at sign, the block name, \<^verbatim>\<open>\s*\<close> and an opening
  brace. The script passes \<^verbatim>\<open>header\<close> and \<^verbatim>\<open>members\<close>, which are plain letters, so the
  name stands for itself in the pattern.
\<close>

definition block_pattern :: "string \<Rightarrow> item list" where
  "block_pattern block_name = [Lit (CHR ''@'' # block_name), Star is_space, Lit ''{'']"

text \<open>
  The inner loop \<^verbatim>\<open>while j < len(content) and brace_count > 0\<close>, on the text from
  position \<^verbatim>\<open>j\<close>: the text from the position where the loop stops.
\<close>

fun skip_braces :: "nat \<Rightarrow> string \<Rightarrow> string" where
  "skip_braces brace_count [] = []"
| "skip_braces brace_count (c # cs) =
     (if brace_count > 0 then
        (if c = CHR ''{'' then skip_braces (brace_count + 1) cs
         else if c = CHR ''}'' then skip_braces (brace_count - 1) cs
         else skip_braces brace_count cs)
      else c # cs)"

text \<open>
  The outer loop of \<^verbatim>\<open>remove_block\<close>, on the text from position \<^verbatim>\<open>i\<close>: the characters
  appended to \<^verbatim>\<open>result\<close> from there on.
\<close>

function remove_block_from :: "string \<Rightarrow> string \<Rightarrow> string" where
  "remove_block_from block_name [] = []"
| "remove_block_from block_name (c # cs) =
     (case re_match (block_pattern block_name) (c # cs) of
        Some (gs, e) \<Rightarrow>
          remove_block_from block_name
            (dropWhile is_blank (skip_braces 1 (drop (e - 1) cs)))
      | None \<Rightarrow> c # remove_block_from block_name cs)"
  by pat_completeness auto
termination
proof (relation "measure (\<lambda>(b, s). length s)")
  show "wf (measure (\<lambda>(b, s). length s))" by simp
next
  fix block_name :: string and c :: char and cs :: string and x2 :: "string list \<times> nat"
    and gs :: "string list" and e :: nat
  have length_skip_braces: "length (skip_braces n s) \<le> length s" for n s
    by (induction n s rule: skip_braces.induct) auto
  have "length (dropWhile is_blank (skip_braces 1 (drop (e - 1) cs)))
          \<le> length (skip_braces 1 (drop (e - 1) cs))"
    by (rule length_dropWhile_le)
  also have "\<dots> \<le> length (drop (e - 1) cs)"
    by (rule length_skip_braces)
  also have "\<dots> \<le> length cs" by simp
  finally show "((block_name, dropWhile is_blank (skip_braces 1 (drop (e - 1) cs))),
                 (block_name, c # cs)) \<in> measure (\<lambda>(b, s). length s)"
    by simp
next
  fix block_name :: string and c :: char and cs :: string
  show "((block_name, cs), (block_name, c # cs)) \<in> measure (\<lambda>(b, s). length s)"
    by simp
qed

text \<open>
  \<^verbatim>\<open>remove_block\<close> puts the tag into its pattern as it is, with no escaping, and the pattern
  is compiled when \<^verbatim>\<open>re.match\<close> is first called, inside the loop: for an empty text nothing
  is compiled and the result is the empty text. For a text that is not empty,
  \<^item> a tag of word characters is literal text in the pattern (\<open>block_pattern\<close>), and the
    result is what the loop appends;
  \<^item> a tag of word characters and opening parentheses, with at least one parenthesis,
    opens a group that nothing closes (the rest of the pattern has no closing
    parenthesis), and \<^verbatim>\<open>re.match\<close> raises \<^verbatim>\<open>re.error\<close>;
  \<^item> any other tag holds syntax of regular expressions that this theory does not interpret:
    the result is \<open>None\<close>.
  The script itself passes \<^verbatim>\<open>header\<close> and \<^verbatim>\<open>members\<close>.
\<close>

definition remove_block :: "string \<Rightarrow> string \<Rightarrow> (error + string) option" where
  "remove_block content block_name =
     (if content = [] then Some (Inr [])
      else if list_all is_word block_name
        then Some (Inr (remove_block_from block_name content))
      else if list_all (\<lambda>c. is_word c \<or> c = CHR ''('') block_name
        then Some (Inl ReError)
      else None)"

section \<open>Call Rewriter\<close>

text \<open>\<^verbatim>\<open>\{tags\.push\(getText\(\)\);?\}\<close>\<close>

definition push_pattern :: "item list" where
  "push_pattern = [Lit ''{'', Lit ''tags.push(getText())'', Opt CHR '';'', Lit ''}'']"

text \<open>\<^verbatim>\<open>\{getText\(\)\.equals\(tags\.peek\(\)\)\}\?\<close>\<close>

definition peek_pattern :: "item list" where
  "peek_pattern = [Lit ''{'', Lit ''getText().equals(tags.peek())}?'']"

text \<open>\<^verbatim>\<open>\{tags\.pop\(\);?\}\<close>\<close>

definition pop_pattern :: "item list" where
  "pop_pattern = [Lit ''{'', Lit ''tags.pop()'', Opt CHR '';'', Lit ''}'']"

text \<open>\<^verbatim>\<open>\{(!?)(\w+)\(\)\}(\?)?\<close>: the groups are items 1, 2 and 4.\<close>

definition call_pattern :: "item list" where
  "call_pattern = [Lit ''{'', Opt CHR ''!'', Plus is_word, Lit ''()}'', Opt CHR ''?'']"

text \<open>\<^verbatim>\<open>\{(\w+)\(\);\}\<close>: the group is item 1.\<close>

definition action_pattern :: "item list" where
  "action_pattern = [Lit ''{'', Plus is_word, Lit ''();}'']"

text \<open>\<^verbatim>\<open>\{(!?)([a-zA-Z][a-zA-Z_0-9]*)\}(\?)\<close>: the groups are item 1, items 2 and 3, item 5.\<close>

definition field_pattern :: "item list" where
  "field_pattern =
     [Lit ''{'', Opt CHR ''!'', One is_ascii_alpha, Star is_ident_char, Lit ''}'', Lit ''?'']"

definition push_repl :: "string list \<Rightarrow> string" where
  "push_repl gs = ''{this.pushDollarTag();}''"

definition peek_repl :: "string list \<Rightarrow> string" where
  "peek_repl gs = ''{this.matchesDollarTag()}?''"

definition pop_repl :: "string list \<Rightarrow> string" where
  "pop_repl gs = ''{this.popDollarTag();}''"

text \<open>
  \<^verbatim>\<open>lambda m: '{' + m.group(1) + 'this.' + m.group(2) + '()' + '}' + (m.group(3) or '')\<close>;
  a group that took no part in the match is the empty text here.
\<close>

definition call_repl :: "string list \<Rightarrow> string" where
  "call_repl gs = ''{'' @ gs ! 1 @ ''this.'' @ gs ! 2 @ ''()'' @ ''}'' @ gs ! 4"

text \<open>\<^verbatim>\<open>lambda m: '{this.' + m.group(1) + '();}'\<close>\<close>

definition action_repl :: "string list \<Rightarrow> string" where
  "action_repl gs = ''{this.'' @ gs ! 1 @ ''();}''"

text \<open>\<^verbatim>\<open>lambda m: '{' + m.group(1) + 'this.' + m.group(2) + '}' + m.group(3)\<close>\<close>

definition field_repl :: "string list \<Rightarrow> string" where
  "field_repl gs = ''{'' @ gs ! 1 @ ''this.'' @ (gs ! 2 @ gs ! 3) @ ''}'' @ gs ! 5"

definition transform_predicates_for_js :: "string \<Rightarrow> string" where
  "transform_predicates_for_js content =
     (let content = re_sub push_pattern push_repl content;
          content = re_sub peek_pattern peek_repl content;
          content = re_sub pop_pattern pop_repl content;
          content = re_sub call_pattern call_repl content;
          content = re_sub action_pattern action_repl content;
          content = re_sub field_pattern field_repl content
      in content)"

section \<open>Files and stage results\<close>

text \<open>
  The directories of the script: \<^verbatim>\<open>GRAMMAR_SOURCE_DIR\<close>, \<^verbatim>\<open>GRAMMAR_TRANSFORMED_DIR\<close> and
  \<^verbatim>\<open>GENERATED_DIR\<close>, each with a file name, and \<^verbatim>\<open>ANTLR_JAR\<close>.
\<close>

datatype path = Source string | Transformed string | Generated string | AntlrJar

text \<open>
  The file system maps a path to the text \<^verbatim>\<open>read_text\<close> returns for it; a path with no
  file maps to \<open>None\<close>, and \<^verbatim>\<open>exists()\<close> is \<open>fs p \<noteq> None\<close>.
\<close>

type_synonym fs = "path \<rightharpoonup> string"

text \<open>\<^verbatim>\<open>path.read_text(encoding='utf-8')\<close> raises when there is no file.\<close>

definition read_text :: "fs \<Rightarrow> path \<Rightarrow> error + string" where
  "read_text fs p = (case fs p of None \<Rightarrow> Inl FileNotFoundError | Some content \<Rightarrow> Inr content)"

definition write_text :: "fs \<Rightarrow> path \<Rightarrow> string \<Rightarrow> fs" where
  "write_text fs p content = fs(p \<mapsto> content)"

text \<open>
  A stage function is called on the file system and either raises or returns its status;
  both leave a file system behind.
\<close>

type_synonym stage = "fs \<Rightarrow> (error + bool) \<times> fs"

section \<open>Grammar Transform Stage\<close>

text \<open>
  The loop \<^verbatim>\<open>for filename in ["SqlBaseLexer.g4", "SqlBaseParser.g4"]\<close>. Both tags it strips
  are words, so \<^verbatim>\<open>remove_block\<close> returns a text each time and the other cases are never
  taken (\<open>remove_block_word\<close> below).
\<close>

fun transform_files :: "string list \<Rightarrow> stage" where
  "transform_files [] fs = (Inr True, fs)"
| "transform_files (filename # filenames) fs =
     (case fs (Source filename) of
        None \<Rightarrow> (Inr False, fs)
      | Some content \<Rightarrow>
          (case remove_block content ''header'' of
             Some (Inr content) \<Rightarrow>
               (case remove_block content ''members'' of
                  Some (Inr content) \<Rightarrow>
                    (let content = transform_predicates_for_js content
                     in transform_files filenames
                          (write_text fs (Transformed filename) content))
                | _ \<Rightarrow> (Inl ReError, fs))
           | _ \<Rightarrow> (Inl ReError, fs)))"

definition transform_grammar :: stage where
  "transform_grammar = transform_files [''SqlBaseLexer.g4'', ''SqlBaseParser.g4'']"

section \<open>Generator Invocation Stage\<close>

text \<open>
  \<^verbatim>\<open>subprocess.run(cmd, capture_output=True, text=True)\<close> starts the external compiler,
  which is no part of the script: it is a parameter, giving for a file system either an
  exception of \<^verbatim>\<open>subprocess.run\<close> or the return code and the file system the compiler
  leaves.
\<close>

type_synonym tool = "fs \<Rightarrow> error + (int \<times> fs)"

definition generate_antlr :: "tool \<Rightarrow> stage" where
  "generate_antlr run_antlr fs =
     (if fs AntlrJar = None then (Inr False, fs)
      else
        (case run_antlr fs of
           Inl e \<Rightarrow> (Inl e, fs)
         | Inr (returncode, fs') \<Rightarrow>
             (if returncode \<noteq> 0 then (Inr False, fs') else (Inr True, fs'))))"

section \<open>Predicate Injection Stage\<close>

text \<open>
  The two triple-quoted literals of \<^verbatim>\<open>add_predicate_implementations\<close>, line by line; each
  line of a literal ends with a newline.
\<close>

definition unlines :: "string list \<Rightarrow> string" where
  "unlines ls = concat (map (\<lambda>l. l @ [CHR 0x0A]) ls)"

definition lexer_predicates_lines :: "string list" where
  "lexer_predicates_lines =
     ['''',
      '''',
      ''// ============================================================================'',
      ''// Lexer Predicate Implementations (from Java @members)'',
      ''// Based on sparkfmt-core/KNOWN_PREDICATES.json'',
      ''// ============================================================================'',
      '''',
      ''// State'',
      ''SqlBaseLexer.prototype.has_unclosed_bracketed_comment = false;'',
      ''SqlBaseLexer.prototype.complex_type_level_counter = 0;'',
      ''SqlBaseLexer.prototype.dollar_tags = [];'',
      '''',
      ''/**'',
      '' * Check if current token forms a valid decimal number.'',
      '' * Returns false if followed by letter/digit/underscore (would be part of identifier).'',
      '' */'',
      ''SqlBaseLexer.prototype.isValidDecimal = function() {'',
      ''    const nextChar = this._input.LA(1);'',
      ''    // Check if next char is A-Z, a-z, 0-9, or _'',
      ''    if ((nextChar >= 65 && nextChar <= 90) ||   // A-Z'',
      ''        (nextChar >= 97 && nextChar <= 122) ||  // a-z'',
      ''        (nextChar >= 48 && nextChar <= 57) ||   // 0-9'',
      ''        nextChar === 95) {                       // _'',
      ''        return false;'',
      ''    }'',
      ''    return true;'',
      ''};'',
      '''',
      ''/**'',
      '' * Check if block comment is a query hint (starts with +).'',
      '' * Hints look like: /--+ BROADCAST(t) --/  (using /*+ in actual SQL)'',
      '' */'',
      ''SqlBaseLexer.prototype.isHint = function() {'',
      ''    return this._input.LA(1) === 43; // '' @ [CHR 0x27] @ ''+'' @ [CHR 0x27],
      ''};'',
      '''',
      ''/**'',
      '' * Check if >> is shift operator vs nested generic closing.'',
      '' * Inside MAP<K, ARRAY<V>>, the >> should be two separate > tokens.'',
      '' */'',
      ''SqlBaseLexer.prototype.isShiftRightOperator = function() {'',
      ''    return this.complex_type_level_counter === 0;'',
      ''};'',
      '''',
      ''/**'',
      '' * Increment counter when entering complex type: MAP<, ARRAY<, STRUCT<'',
      '' */'',
      ''SqlBaseLexer.prototype.incComplexTypeLevelCounter = function() {'',
      ''    this.complex_type_level_counter++;'',
      ''};'',
      '''',
      ''/**'',
      '' * Decrement counter when > closes a complex type.'',
      '' */'',
      ''SqlBaseLexer.prototype.decComplexTypeLevelCounter = function() {'',
      ''    if (this.complex_type_level_counter > 0) {'',
      ''        this.complex_type_level_counter--;'',
      ''    }'',
      ''};'',
      '''',
      ''/**'',
      '' * Mark that an unclosed block comment was encountered (for error reporting).'',
      '' */'',
      ''SqlBaseLexer.prototype.markUnclosedComment = function() {'',
      ''    this.has_unclosed_bracketed_comment = true;'',
      ''};'',
      '''',
      ''/**'',
      '' * Push dollar-quoted string tag onto stack.'',
      '' * For $tag$content$tag$, pushes '' @ [CHR 0x22] @ ''tag'' @ [CHR 0x22] @ ''.'',
      '' */'',
      ''SqlBaseLexer.prototype.pushDollarTag = function() {'',
      ''    this.dollar_tags.push(this.getText());'',
      ''};'',
      '''',
      ''/**'',
      '' * Pop dollar-quoted string tag from stack.'',
      '' */'',
      ''SqlBaseLexer.prototype.popDollarTag = function() {'',
      ''    if (this.dollar_tags.length > 0) {'',
      ''        this.dollar_tags.pop();'',
      ''    }'',
      ''};'',
      '''',
      ''/**'',
      '' * Check if current text matches tag on top of stack.'',
      '' */'',
      ''SqlBaseLexer.prototype.matchesDollarTag = function() {'',
      ''    if (this.dollar_tags.length === 0) return false;'',
      ''    return this.getText() === this.dollar_tags[this.dollar_tags.length - 1];'',
      ''};'']"

definition lexer_predicates_js :: string where
  "lexer_predicates_js = unlines lexer_predicates_lines"

definition parser_predicates_lines :: "string list" where
  "parser_predicates_lines =
     ['''',
      '''',
      ''// ============================================================================'',
      ''// Parser Predicate Implementations (from Java @members)'',
      ''// Based on sparkfmt-core/KNOWN_PREDICATES.json'',
      ''// ============================================================================'',
      '''',
      ''// Configuration flags (can be set before parsing to change behavior)'',
      ''SqlBaseParser.prototype.legacy_setops_precedence_enabled = false;'',
      ''SqlBaseParser.prototype.legacy_exponent_literal_as_decimal_enabled = false;'',
      ''SqlBaseParser.prototype.SQL_standard_keyword_behavior = false;'',
      ''SqlBaseParser.prototype.double_quoted_identifiers = false;'',
      ''SqlBaseParser.prototype.parameter_substitution_enabled = true;'',
      ''SqlBaseParser.prototype.legacy_identifier_clause_only = false;'',
      ''SqlBaseParser.prototype.single_character_pipe_operator_enabled = true;'',
      '''',
      ''/**'',
      '' * Check if |> pipe operator is starting.'',
      '' * Looks ahead to see if PIPE is followed by GT.'',
      '' */'',
      ''SqlBaseParser.prototype.isOperatorPipeStart = function() {'',
      ''    // Check if next token after PIPE is GT (>)'',
      ''    return this._input.LA(2) === SqlBaseParser.GT;'',
      ''};'']"

definition parser_predicates_js :: string where
  "parser_predicates_js = unlines parser_predicates_lines"

text \<open>\<^verbatim>\<open>str.rstrip()\<close>\<close>

definition rstrip :: "string \<Rightarrow> string" where
  "rstrip s = rev (dropWhile is_space (rev s))"

definition lexer_path :: path where
  "lexer_path = Generated ''SqlBaseLexer.js''"

definition parser_path :: path where
  "parser_path = Generated ''SqlBaseParser.js''"

definition add_predicate_implementations :: stage where
  "add_predicate_implementations fs =
     (case fs lexer_path of
        None \<Rightarrow> (Inr False, fs)
      | Some content \<Rightarrow>
          (let content = rstrip content @ lexer_predicates_js;
               fs = write_text fs lexer_path content
           in (case fs parser_path of
                 None \<Rightarrow> (Inr False, fs)
               | Some content \<Rightarrow>
                   (let content = rstrip content @ parser_predicates_js;
                        fs = write_text fs parser_path content
                    in (Inr True, fs)))))"

section \<open>Coverage Verifier\<close>

definition required_lexer_predicates :: "string list" where
  "required_lexer_predicates =
     [''isValidDecimal'', ''isHint'', ''isShiftRightOperator'',
      ''incComplexTypeLevelCounter'', ''decComplexTypeLevelCounter'',
      ''markUnclosedComment'', ''pushDollarTag'', ''popDollarTag'', ''matchesDollarTag'']"

definition required_parser_predicates :: "string list" where
  "required_parser_predicates = [''isOperatorPipeStart'']"

definition required_parser_flags :: "string list" where
  "required_parser_flags =
     [''legacy_setops_precedence_enabled'', ''legacy_exponent_literal_as_decimal_enabled'',
      ''SQL_standard_keyword_behavior'', ''double_quoted_identifiers'',
      ''parameter_substitution_enabled'', ''legacy_identifier_clause_only'',
      ''single_character_pipe_operator_enabled'']"

text \<open>\<^verbatim>\<open>SqlBaseLexer\.prototype\.(\w+)\s*=\<close> and its parser twin: the group is item 1.\<close>

definition impl_pattern :: "string \<Rightarrow> item list" where
  "impl_pattern cls = [Lit (cls @ ''.prototype.''), Plus is_word, Star is_space, Lit ''='']"

definition lexer_impls :: "string \<Rightarrow> string set" where
  "lexer_impls lexer_content = set (re_findall (impl_pattern ''SqlBaseLexer'') 1 lexer_content)"

definition parser_impls :: "string \<Rightarrow> string set" where
  "parser_impls parser_content = set (re_findall (impl_pattern ''SqlBaseParser'') 1 parser_content)"

text \<open>\<^verbatim>\<open>sub in text\<close> for two texts.\<close>

fun contains :: "string \<Rightarrow> string \<Rightarrow> bool" where
  "contains sub [] = (sub = [])"
| "contains sub (c # cs) = (take (length sub) (c # cs) = sub \<or> contains sub cs)"

definition missing_lexer :: "string \<Rightarrow> string set" where
  "missing_lexer lexer_content = set required_lexer_predicates - lexer_impls lexer_content"

definition missing_parser_predicates :: "string \<Rightarrow> string set" where
  "missing_parser_predicates parser_content =
     set required_parser_predicates - parser_impls parser_content"

definition missing_parser_flags :: "string \<Rightarrow> string list" where
  "missing_parser_flags parser_content =
     filter (\<lambda>f. \<not> contains (''prototype.'' @ f) parser_content) required_parser_flags"

text \<open>
  \<^verbatim>\<open>verify_predicates\<close> reads both artifacts with no test that they exist. The list
  \<^verbatim>\<open>issues\<close> is empty when the three collections of missing names are.
\<close>

definition verify_predicates :: stage where
  "verify_predicates fs =
     (case read_text fs lexer_path of
        Inl e \<Rightarrow> (Inl e, fs)
      | Inr lexer_content \<Rightarrow>
          (case read_text fs parser_path of
             Inl e \<Rightarrow> (Inl e, fs)
           | Inr parser_content \<Rightarrow>
               (if missing_lexer lexer_content \<noteq> {}
                   \<or> missing_parser_predicates parser_content \<noteq> {}
                   \<or> missing_parser_flags parser_content \<noteq> []
                then (Inr False, fs)
                else (Inr True, fs))))"

section \<open>Pipeline Driver\<close>

text \<open>
  The loop \<^verbatim>\<open>for name, func in steps\<close> of \<^verbatim>\<open>main\<close>. The result holds what \<^verbatim>\<open>main\<close>
  returns (or the exception that leaves it), the names of the stage functions that were
  called, in the order of the calls, and the file system at the end.
\<close>

fun run_steps :: "(string \<times> stage) list \<Rightarrow> fs \<Rightarrow> (error + int) \<times> string list \<times> fs" where
  "run_steps [] fs = (Inr 0, [], fs)"
| "run_steps ((name, func) # steps) fs =
     (case func fs of
        (Inl e, fs') \<Rightarrow> (Inl e, [name], fs')
      | (Inr ok, fs') \<Rightarrow>
          (if \<not> ok then (Inr 1, [name], fs')
           else (case run_steps steps fs' of (r, called, fs'') \<Rightarrow> (r, name # called, fs''))))"

definition steps :: "tool \<Rightarrow> (string \<times> stage) list" where
  "steps run_antlr =
     [(''Transform grammar'', transform_grammar),
      (''Generate JavaScript'', generate_antlr run_antlr),
      (''Add predicates'', add_predicate_implementations),
      (''Verify coverage'', verify_predicates)]"

definition main :: "tool \<Rightarrow> fs \<Rightarrow> (error + int) \<times> string list \<times> fs" where
  "main run_antlr fs = run_steps (steps run_antlr) fs"

text \<open>
  \<^verbatim>\<open>sys.exit(main())\<close>: the exit code of the process is the value \<^verbatim>\<open>main\<close> returns; an
  exception that leaves \<^verbatim>\<open>main\<close> ends the interpreter with exit code 1.
\<close>

definition exit_code :: "error + int \<Rightarrow> int" where
  "exit_code r = (case r of Inl e \<Rightarrow> 1 | Inr n \<Rightarrow> n)"

section \<open>Auxiliary notions\<close>

text \<open>Notions used in the proofs only; none of them is part of the script.\<close>

fun consumes :: "item \<Rightarrow> char \<Rightarrow> bool" where
  "consumes (Lit l) x = (x \<in> set l)"
| "consumes (Opt c) x = (x = c)"
| "consumes (One P) x = P x"
| "consumes (Plus P) x = P x"
| "consumes (Star P) x = P x"

fun nomatch :: "item list \<Rightarrow> string \<Rightarrow> bool" where
  "nomatch p [] = True"
| "nomatch p (c # cs) = (re_match p (c # cs) = None \<and> nomatch p cs)"

definition at_brace :: "item list \<Rightarrow> bool" where
  "at_brace p = (\<exists>p'. p = Lit ''{'' # p' \<and> (\<forall>it \<in> set p'. \<not> consumes it CHR ''{''))"

definition this_shape :: "string \<Rightarrow> bool" where
  "this_shape r = (\<exists>x. (r = ''{this.'' @ x \<or> r = ''{!this.'' @ x) \<and> CHR ''{'' \<notin> set x)"

definition blind :: "item list \<Rightarrow> bool" where
  "blind p = (\<forall>x. re_match p (''{this.'' @ x) = None \<and> re_match p (''{!this.'' @ x) = None)"

definition shaped :: "item list \<Rightarrow> (string list \<Rightarrow> string) \<Rightarrow> bool" where
  "shaped m f = (\<forall>t gs e. re_match m t = Some (gs, e) \<longrightarrow> this_shape (f gs))"









definition barrier :: "char \<Rightarrow> bool" where
  "barrier x = (\<not> is_word x \<and> \<not> is_space x \<and> x \<noteq> CHR ''='' \<and> x \<noteq> CHR ''.'')"

text \<open>
  Brace balance as the spec words it. \<open>balanced_from d s\<close>: starting \<open>d\<close> braces deep, the
  text \<open>s\<close> never closes a brace that is not open and ends with none open.
  \<open>closes d s\<close>: starting \<open>d\<close> braces deep, the depth returns to zero somewhere in \<open>s\<close>.
\<close>

fun balanced_from :: "nat \<Rightarrow> string \<Rightarrow> bool" where
  "balanced_from d [] = (d = 0)"
| "balanced_from d (c # cs) =
     (if c = CHR ''{'' then balanced_from (d + 1) cs
      else if c = CHR ''}'' then (d > 0 \<and> balanced_from (d - 1) cs)
      else balanced_from d cs)"

fun closes :: "nat \<Rightarrow> string \<Rightarrow> bool" where
  "closes 0 s = True"
| "closes (Suc d) [] = False"
| "closes (Suc d) (c # cs) =
     (if c = CHR ''{'' then closes (Suc (Suc d)) cs
      else if c = CHR ''}'' then closes d cs
      else closes (Suc d) cs)"

text \<open>
  A text laid out as the claims on the Block Stripper describe it: regions
  \<^verbatim>\<open>@tag\<close>, whitespace, \<^verbatim>\<open>{\<close>, body, \<^verbatim>\<open>}\<close>, each followed by the blanks the stripper skips and
  by the text up to the next region. A region is given by the whitespace after the tag,
  the body, the blanks after the closing brace and the text that follows.
\<close>

type_synonym region = "string \<times> string \<times> string \<times> string"

fun render :: "string \<Rightarrow> region list \<Rightarrow> string" where
  "render tag [] = []"
| "render tag ((ws, body, blanks, gap) # rs) =
     ''@'' @ tag @ ws @ ''{'' @ body @ ''}'' @ blanks @ gap @ render tag rs"

fun kept :: "region list \<Rightarrow> string" where
  "kept [] = []"
| "kept ((ws, body, blanks, gap) # rs) = gap @ kept rs"

fun region_ok :: "string \<Rightarrow> region \<Rightarrow> bool" where
  "region_ok tag (ws, body, blanks, gap) =
     (list_all is_space ws \<and> balanced_from 0 body \<and> list_all is_blank blanks
      \<and> list_all (\<lambda>c. \<not> is_blank c) (take 1 gap) \<and> nomatch (block_pattern tag) gap)"



definition closed_line :: "string \<Rightarrow> bool" where
  "closed_line l = (l \<noteq> [] \<and> (last l = CHR '';'' \<or> last l = CHR ''{''))"

definition line_ok :: "string \<Rightarrow> string \<Rightarrow> bool" where
  "line_ok cls l = (if closed_line l then True else \<not> contains (cls @ ''.prototype.'') l)"

definition line_impls :: "string \<Rightarrow> nat \<Rightarrow> string \<Rightarrow> string list" where
  "line_impls cls k l = (if closed_line l then re_findall (impl_pattern cls) k l else [])"

(*AUXEND*)

section \<open>The end-to-end scenario\<close>

text \<open>
  C7: stripping the \<^verbatim>\<open>members\<close> block from the two-line source text of the scenario and
  rewriting the calls gives exactly \<^verbatim>\<open>foo : {this.isHint()}? BAR ;\<close>: the block and the
  newline after it are gone, the call has the instance prefix and keeps its \<^verbatim>\<open>?\<close>.
\<close>

theorem scenario_members_isHint:
  "remove_block (''@members {int x;}'' @ [CHR 0x0A] @ ''foo : {isHint()}? BAR ;'') ''members''
     = Some (Inr ''foo : {isHint()}? BAR ;'')
   \<and> transform_predicates_for_js ''foo : {isHint()}? BAR ;'' = ''foo : {this.isHint()}? BAR ;''"
  by code_simp

lemma remove_block_word:
  "list_all is_word block_name
     \<Longrightarrow> remove_block content block_name = Some (Inr (remove_block_from block_name content))"
  by (cases content) (simp_all add: remove_block_def)

section \<open>Matching: general facts\<close>

lemma match_item_concat: "match_item it s = Some (g, r) \<Longrightarrow> s = g @ r"
proof (cases it)
  case (Lit l)
  assume "match_item it s = Some (g, r)"
  with Lit have "take (length l) s = l" "g = l" "r = drop (length l) s"
    by (auto split: if_splits)
  then show ?thesis by (metis append_take_drop_id)
next
  case (Opt c)
  assume "match_item it s = Some (g, r)"
  with Opt show ?thesis by (cases s) (auto split: if_splits)
next
  case (One P)
  assume "match_item it s = Some (g, r)"
  with One show ?thesis by (cases s) (auto split: if_splits)
next
  case (Plus P)
  assume "match_item it s = Some (g, r)"
  with Plus show ?thesis by (auto split: if_splits)
next
  case (Star P)
  assume "match_item it s = Some (g, r)"
  with Star show ?thesis by auto
qed

lemma match_items_concat: "match_items p s = Some (gs, r) \<Longrightarrow> s = concat gs @ r"
proof (induction p arbitrary: s gs r)
  case Nil
  then show ?case by simp
next
  case (Cons it p)
  from Cons.prems obtain g r1 gs1 where
    a: "match_item it s = Some (g, r1)" and b: "match_items p r1 = Some (gs1, r)" and c: "gs = g # gs1"
    by (auto split: option.splits)
  from match_item_concat[OF a] Cons.IH[OF b] c show ?case by simp
qed

lemma re_match_SomeD:
  assumes "re_match p s = Some (gs, e)"
  shows "\<exists>r. match_items p s = Some (gs, r) \<and> s = concat gs @ r \<and> e = length (concat gs) \<and> drop e s = r \<and> e \<le> length s"
proof -
  from assms obtain r where m: "match_items p s = Some (gs, r)" and e: "e = length s - length r"
    by (auto simp: re_match_def split: option.splits)
  from match_items_concat[OF m] have s: "s = concat gs @ r" .
  from s e have "e = length (concat gs)"
    by (metis add_diff_cancel_right' length_append)
  with m s show ?thesis
    by (metis append_eq_conv_conj le_add1 length_append)
qed

lemma take_stop:
  assumes "x \<notin> set l"
  shows "(take (length l) (u @ x # v) = l) = (take (length l) u = l)"
proof (cases "length l \<le> length u")
  case True
  then show ?thesis by simp
next
  case False
  then have lt: "length u < length l" by simp
  then obtain k where k: "length l - length u = Suc k"
    by (cases "length l - length u") auto
  have "length (take (length l) u) < length l" using lt by simp
  then have 1: "take (length l) u \<noteq> l" by auto
  have "take (length l) (u @ x # v) = u @ x # take k v"
    using k by simp
  then have "x \<in> set (take (length l) (u @ x # v))" by simp
  with assms have 2: "take (length l) (u @ x # v) \<noteq> l" by metis
  from 1 2 show ?thesis by simp
qed

lemma match_item_stop:
  assumes "\<not> consumes it x"
  shows "match_item it (u @ x # v) = map_option (\<lambda>(g, r). (g, r @ x # v)) (match_item it u)"
proof (cases it)
  case (Lit l)
  with assms have x: "x \<notin> set l" by simp
  show ?thesis
  proof (cases "take (length l) u = l")
    case True
    then have "length (take (length l) u) = length l" by simp
    then have "length l \<le> length u" by simp
    with True Lit take_stop[OF x, of u v] show ?thesis by simp
  next
    case False
    with Lit take_stop[OF x, of u v] show ?thesis by simp
  qed
next
  case (Opt c)
  with assms show ?thesis by (cases u) auto
next
  case (One P)
  with assms show ?thesis by (cases u) auto
next
  case (Plus P)
  with assms show ?thesis by (simp add: takeWhile_tail dropWhile_append3)
next
  case (Star P)
  with assms show ?thesis by (simp add: takeWhile_tail dropWhile_append3)
qed

lemma match_items_stop:
  assumes "\<forall>it \<in> set p. \<not> consumes it x"
  shows "match_items p (u @ x # v) = map_option (\<lambda>(gs, r). (gs, r @ x # v)) (match_items p u)"
  using assms
proof (induction p arbitrary: u)
  case Nil
  then show ?case by simp
next
  case (Cons it p)
  then have it: "\<not> consumes it x" and p: "\<forall>it \<in> set p. \<not> consumes it x" by auto
  show ?case
  proof (cases "match_item it u")
    case None
    with match_item_stop[OF it, of u v] show ?thesis by simp
  next
    case (Some a)
    obtain g r where a: "a = (g, r)" by (cases a)
    from Some a match_item_stop[OF it, of u v]
    have "match_item it (u @ x # v) = Some (g, r @ x # v)" by simp
    with Some a Cons.IH[OF p, of r] show ?thesis
      by (auto split: option.splits)
  qed
qed

lemma re_match_stop:
  assumes "\<forall>it \<in> set p. \<not> consumes it x"
  shows "re_match p (u @ x # v) = re_match p u"
  using match_items_stop[OF assms, of u v]
  by (auto simp: re_match_def split: option.splits)

lemma re_sub_nomatch: "nomatch p s \<Longrightarrow> re_sub p f s = s"
  by (induction s) auto

lemma nomatch_drop: "nomatch p s \<Longrightarrow> nomatch p (drop n s)"
proof (induction s arbitrary: n)
  case Nil
  then show ?case by simp
next
  case (Cons c cs)
  then show ?case by (cases n) auto
qed

lemma at_brace_unfold:
  assumes "at_brace p"
  obtains p' where "p = Lit ''{'' # p'" and "\<forall>it \<in> set p'. \<not> consumes it CHR ''{''"
  using assms unfolding at_brace_def by blast

lemma match_brace_first:
  "match_items (Lit ''{'' # p') (c # t) =
     (if c = CHR ''{'' then map_option (\<lambda>(gs, r). (''{'' # gs, r)) (match_items p' t) else None)"
  by (auto split: option.splits)

lemma at_brace_hd: "at_brace p \<Longrightarrow> c \<noteq> CHR ''{'' \<Longrightarrow> re_match p (c # cs) = None"
  by (erule at_brace_unfold) (simp add: re_match_def match_brace_first del: match_items.simps)

lemma at_brace_local:
  assumes "at_brace p"
  shows "re_match p (c # u @ CHR ''{'' # v) = re_match p (c # u)"
proof -
  from assms obtain p' where p: "p = Lit ''{'' # p'" and np: "\<forall>it \<in> set p'. \<not> consumes it CHR ''{''"
    by (rule at_brace_unfold)
  show ?thesis
    unfolding p re_match_def match_brace_first match_items_stop[OF np]
    by (auto split: option.splits)
qed

lemma at_brace_takeWhile:
  assumes "at_brace p"
  shows "re_match p (c # cs) = re_match p (c # takeWhile (\<lambda>x. x \<noteq> CHR ''{'') cs)"
proof (cases "dropWhile (\<lambda>x. x \<noteq> CHR ''{'') cs")
  case Nil
  then have "takeWhile (\<lambda>x. x \<noteq> CHR ''{'') cs = cs"
    by (metis append_Nil2 takeWhile_dropWhile_id)
  then show ?thesis by (simp only:)
next
  case (Cons y v)
  then have "y = CHR ''{''" using hd_dropWhile[of "\<lambda>x. x \<noteq> CHR ''{''" cs] by auto
  with Cons have "cs = takeWhile (\<lambda>x. x \<noteq> CHR ''{'') cs @ CHR ''{'' # v"
    by (metis takeWhile_dropWhile_id)
  then have "re_match p (c # cs) = re_match p (c # takeWhile (\<lambda>x. x \<noteq> CHR ''{'') cs @ CHR ''{'' # v)"
    by simp
  also have "\<dots> = re_match p (c # takeWhile (\<lambda>x. x \<noteq> CHR ''{'') cs)"
    by (rule at_brace_local[OF assms])
  finally show ?thesis .
qed

lemma nomatch_no_brace:
  assumes "at_brace p" and "CHR ''{'' \<notin> set x" and "nomatch p w"
  shows "nomatch p (x @ w)"
  using assms(2)
proof (induction x)
  case Nil
  with assms(3) show ?case by simp
next
  case (Cons y x)
  then have "y \<noteq> CHR ''{''" and "nomatch p (x @ w)" by auto
  then show ?case using at_brace_hd[OF assms(1), of y "x @ w"] by simp
qed

lemma this_shape_hd: "this_shape r \<Longrightarrow> \<exists>x. r = CHR ''{'' # x"
  by (auto simp: this_shape_def)

lemma takeWhile_re_sub:
  assumes "at_brace m" and "shaped m f"
  shows "takeWhile (\<lambda>x. x \<noteq> CHR ''{'') (re_sub m f s) = takeWhile (\<lambda>x. x \<noteq> CHR ''{'') s"
  using assms
proof (induction m f s rule: re_sub.induct)
  case (1 p f)
  then show ?case by simp
next
  case (2 p f c cs)
  show ?case
  proof (cases "re_match p (c # cs)")
    case None
    with 2 show ?thesis by simp
  next
    case (Some a)
    obtain gs e where a: "a = (gs, e)" by (cases a)
    have c: "c = CHR ''{''"
      using at_brace_hd[OF "2.prems"(1), of c cs] Some by auto
    from "2.prems"(2) Some a have "this_shape (f gs)" by (auto simp: shaped_def)
    then obtain x where "f gs = CHR ''{'' # x" using this_shape_hd by blast
    with Some a c show ?thesis by simp
  qed
qed

lemma nomatch_re_sub:
  assumes "at_brace p" and "blind p" and "at_brace m" and "shaped m f"
    and "nomatch p s \<or> p = m"
  shows "nomatch p (re_sub m f s)"
  using assms
proof (induction m f s rule: re_sub.induct)
  case (1 m f)
  then show ?case by simp
next
  case (2 m f c cs)
  show ?case
  proof (cases "re_match m (c # cs)")
    case None
    from "2.prems"(5) None have pc: "re_match p (c # cs) = None" by auto
    from "2.prems"(5) have tl: "nomatch p cs \<or> p = m" by auto
    have ih: "nomatch p (re_sub m f cs)"
      using "2.IH"(1)[OF None "2.prems"(1-4) tl] .
    have "re_match p (c # re_sub m f cs)
            = re_match p (c # takeWhile (\<lambda>x. x \<noteq> CHR ''{'') (re_sub m f cs))"
      by (rule at_brace_takeWhile[OF "2.prems"(1)])
    also have "\<dots> = re_match p (c # takeWhile (\<lambda>x. x \<noteq> CHR ''{'') cs)"
      by (simp only: takeWhile_re_sub[OF "2.prems"(3,4)])
    also have "\<dots> = re_match p (c # cs)"
      by (rule at_brace_takeWhile[OF "2.prems"(1), symmetric])
    finally have "re_match p (c # re_sub m f cs) = None" using pc by simp
    with ih None show ?thesis by simp
  next
    case (Some a)
    obtain gs e where a: "a = (gs, e)" by (cases a)
    from "2.prems"(5) have tl: "nomatch p (drop (e - 1) cs) \<or> p = m"
      using nomatch_drop[of p cs "e - 1"] by auto
    have ih: "nomatch p (re_sub m f (drop (e - 1) cs))"
      using "2.IH"(2)[OF Some a[symmetric] "2.prems"(1-4) tl] .
    from "2.prems"(4) Some a have "this_shape (f gs)" by (auto simp: shaped_def)
    then obtain x where x: "f gs = ''{this.'' @ x \<or> f gs = ''{!this.'' @ x" and nb: "CHR ''{'' \<notin> set x"
      by (auto simp: this_shape_def)
    let ?w = "re_sub m f (drop (e - 1) cs)"
    have xw: "nomatch p (x @ ?w)" by (rule nomatch_no_brace[OF "2.prems"(1) nb ih])
    have hd1: "re_match p (y # t) = None" if "y \<noteq> CHR ''{''" for y t
      using at_brace_hd[OF "2.prems"(1) that] .
    from "2.prems"(2) have b1: "re_match p (''{this.'' @ x @ ?w) = None"
      and b2: "re_match p (''{!this.'' @ x @ ?w) = None"
      by (auto simp: blind_def)
    have "nomatch p (f gs @ ?w)"
      using x
    proof
      assume "f gs = ''{this.'' @ x"
      then show ?thesis using b1 xw hd1 by simp
    next
      assume "f gs = ''{!this.'' @ x"
      then show ?thesis using b2 xw hd1 by simp
    qed
    with Some a show ?thesis by simp
  qed
qed

lemma brace_classes:
  "\<not> is_word CHR ''{''" "\<not> is_ascii_alpha CHR ''{''" "\<not> is_ident_char CHR ''{''"
  "\<not> is_space CHR ''{''"
  by (simp_all add: is_word_def is_ascii_alpha_def is_ident_char_def is_space_def is_digit_def
      is_latin1_alnum_def code_point_def)

lemma at_brace_patterns:
  "at_brace push_pattern" "at_brace peek_pattern" "at_brace pop_pattern"
  "at_brace call_pattern" "at_brace action_pattern" "at_brace field_pattern"
  by (simp_all add: at_brace_def push_pattern_def peek_pattern_def pop_pattern_def
      call_pattern_def action_pattern_def field_pattern_def brace_classes)

lemma this_classes:
  "is_word CHR ''t''" "is_word CHR ''h''" "is_word CHR ''i''" "is_word CHR ''s''"
  "\<not> is_word CHR ''.''" "\<not> is_word CHR ''!''"
  "is_ascii_alpha CHR ''t''" "\<not> is_ascii_alpha CHR ''!''"
  "is_ident_char CHR ''h''" "is_ident_char CHR ''i''" "is_ident_char CHR ''s''"
  "\<not> is_ident_char CHR ''.''"
  by (simp_all add: is_word_def is_ascii_alpha_def is_ident_char_def is_space_def is_digit_def
      is_latin1_alnum_def code_point_def)

lemma blind_push: "blind push_pattern"
  by (simp add: blind_def re_match_def push_pattern_def)

lemma blind_peek: "blind peek_pattern"
  by (simp add: blind_def re_match_def peek_pattern_def)

lemma blind_pop: "blind pop_pattern"
  by (simp add: blind_def re_match_def pop_pattern_def)

lemma blind_call: "blind call_pattern"
  by (simp add: blind_def re_match_def call_pattern_def this_classes)

lemma blind_action: "blind action_pattern"
  by (simp add: blind_def re_match_def action_pattern_def this_classes)

lemma blind_field: "blind field_pattern"
  by (simp add: blind_def re_match_def field_pattern_def this_classes)

lemma shaped_push: "shaped push_pattern push_repl"
  by (simp add: shaped_def this_shape_def push_repl_def)

lemma shaped_peek: "shaped peek_pattern peek_repl"
  by (simp add: shaped_def this_shape_def peek_repl_def)

lemma shaped_pop: "shaped pop_pattern pop_repl"
  by (simp add: shaped_def this_shape_def pop_repl_def)

lemma word_run_no_brace: "CHR ''{'' \<notin> set (takeWhile is_word s)"
  using brace_classes(1) by (metis set_takeWhileD)

lemma ident_run_no_brace: "CHR ''{'' \<notin> set (takeWhile is_ident_char s)"
  using brace_classes(3) by (metis set_takeWhileD)

lemma match_opt: "match_item (Opt c) s = Some (g, r) \<Longrightarrow> g = [] \<or> g = [c]"
  by (cases s) (auto split: if_splits)

lemma call_groups:
  assumes "re_match call_pattern t = Some (gs, e)"
  shows "\<exists>g1 w g3. gs = [''{'', g1, takeWhile is_word w, ''()}'', g3]
           \<and> (g1 = [] \<or> g1 = ''!'') \<and> (g3 = [] \<or> g3 = ''?'')"
proof -
  from assms obtain r where m: "match_items call_pattern t = Some (gs, r)"
    by (auto simp: re_match_def split: option.splits)
  then obtain g0 r0 g1 r1 g2 r2 g3 r3 g4 where
    i0: "match_item (Lit ''{'') t = Some (g0, r0)" and
    i1: "match_item (Opt CHR ''!'') r0 = Some (g1, r1)" and
    i2: "match_item (Plus is_word) r1 = Some (g2, r2)" and
    i3: "match_item (Lit ''()}'') r2 = Some (g3, r3)" and
    i4: "match_item (Opt CHR ''?'') r3 = Some (g4, r)" and
    gs: "gs = [g0, g1, g2, g3, g4]"
    unfolding call_pattern_def by (auto split: option.splits)
  from i0 have "g0 = ''{''" by (auto split: if_splits)
  moreover from i2 have "g2 = takeWhile is_word r1" by (auto split: if_splits)
  moreover from i3 have "g3 = ''()}''" by (auto split: if_splits)
  moreover note match_opt[OF i1] match_opt[OF i4] gs
  ultimately show ?thesis by auto
qed

lemma shaped_call: "shaped call_pattern call_repl"
  unfolding shaped_def
proof (intro allI impI)
  fix t gs e
  assume "re_match call_pattern t = Some (gs, e)"
  from call_groups[OF this] obtain g1 w g3 where
    gs: "gs = [''{'', g1, takeWhile is_word w, ''()}'', g3]"
    and g1: "g1 = [] \<or> g1 = ''!''" and g3: "g3 = [] \<or> g3 = ''?''" by blast
  have r: "call_repl gs = ''{'' @ g1 @ ''this.'' @ takeWhile is_word w @ ''()}'' @ g3"
    by (simp add: call_repl_def gs)
  have nb: "CHR ''{'' \<notin> set (takeWhile is_word w @ ''()}'' @ g3)"
    using word_run_no_brace[of w] g3 by auto
  from g1 show "this_shape (call_repl gs)"
  proof
    assume "g1 = []"
    with r have "call_repl gs = ''{this.'' @ (takeWhile is_word w @ ''()}'' @ g3)" by simp
    with nb show ?thesis unfolding this_shape_def by blast
  next
    assume "g1 = ''!''"
    with r have "call_repl gs = ''{!this.'' @ (takeWhile is_word w @ ''()}'' @ g3)" by simp
    with nb show ?thesis unfolding this_shape_def by blast
  qed
qed

lemma action_groups:
  assumes "re_match action_pattern t = Some (gs, e)"
  shows "\<exists>w. gs = [''{'', takeWhile is_word w, ''();}'']"
proof -
  from assms obtain r where m: "match_items action_pattern t = Some (gs, r)"
    by (auto simp: re_match_def split: option.splits)
  then obtain g0 r0 g1 r1 g2 where
    i0: "match_item (Lit ''{'') t = Some (g0, r0)" and
    i1: "match_item (Plus is_word) r0 = Some (g1, r1)" and
    i2: "match_item (Lit ''();}'') r1 = Some (g2, r)" and
    gs: "gs = [g0, g1, g2]"
    unfolding action_pattern_def by (auto split: option.splits)
  from i0 have "g0 = ''{''" by (auto split: if_splits)
  moreover from i1 have "g1 = takeWhile is_word r0" by (auto split: if_splits)
  moreover from i2 have "g2 = ''();}''" by (auto split: if_splits)
  ultimately show ?thesis using gs by auto
qed

lemma shaped_action: "shaped action_pattern action_repl"
  unfolding shaped_def
proof (intro allI impI)
  fix t gs e
  assume "re_match action_pattern t = Some (gs, e)"
  from action_groups[OF this] obtain w where gs: "gs = [''{'', takeWhile is_word w, ''();}'']"
    by blast
  have r: "action_repl gs = ''{this.'' @ (takeWhile is_word w @ ''();}'')"
    by (simp add: action_repl_def gs)
  have nb: "CHR ''{'' \<notin> set (takeWhile is_word w @ ''();}'')"
    using word_run_no_brace[of w] by auto
  from r nb show "this_shape (action_repl gs)" unfolding this_shape_def by blast
qed

lemma field_groups:
  assumes "re_match field_pattern t = Some (gs, e)"
  shows "\<exists>g1 a w. gs = [''{'', g1, [a], takeWhile is_ident_char w, ''}'', ''?'']
           \<and> (g1 = [] \<or> g1 = ''!'') \<and> is_ascii_alpha a"
proof -
  from assms obtain r where m: "match_items field_pattern t = Some (gs, r)"
    by (auto simp: re_match_def split: option.splits)
  then obtain g0 r0 g1 r1 g2 r2 g3 r3 g4 r4 g5 where
    i0: "match_item (Lit ''{'') t = Some (g0, r0)" and
    i1: "match_item (Opt CHR ''!'') r0 = Some (g1, r1)" and
    i2: "match_item (One is_ascii_alpha) r1 = Some (g2, r2)" and
    i3: "match_item (Star is_ident_char) r2 = Some (g3, r3)" and
    i4: "match_item (Lit ''}'') r3 = Some (g4, r4)" and
    i5: "match_item (Lit ''?'') r4 = Some (g5, r)" and
    gs: "gs = [g0, g1, g2, g3, g4, g5]"
    unfolding field_pattern_def by (auto split: option.splits)
  from i0 have "g0 = ''{''" by (auto split: if_splits)
  moreover from i2 obtain a where "g2 = [a]" "is_ascii_alpha a"
    by (cases r1) (auto split: if_splits)
  moreover from i3 have "g3 = takeWhile is_ident_char r2" by auto
  moreover from i4 have "g4 = ''}''" by (auto split: if_splits)
  moreover from i5 have "g5 = ''?''" by (auto split: if_splits)
  moreover note match_opt[OF i1] gs
  ultimately show ?thesis by auto
qed

lemma shaped_field: "shaped field_pattern field_repl"
  unfolding shaped_def
proof (intro allI impI)
  fix t gs e
  assume "re_match field_pattern t = Some (gs, e)"
  from field_groups[OF this] obtain g1 a w where
    gs: "gs = [''{'', g1, [a], takeWhile is_ident_char w, ''}'', ''?'']"
    and g1: "g1 = [] \<or> g1 = ''!''" and a: "is_ascii_alpha a" by blast
  have r: "field_repl gs = ''{'' @ g1 @ ''this.'' @ (a # takeWhile is_ident_char w) @ ''}?''"
    by (simp add: field_repl_def gs)
  from a brace_classes(2) have "a \<noteq> CHR ''{''" by auto
  then have nb: "CHR ''{'' \<notin> set ((a # takeWhile is_ident_char w) @ ''}?'')"
    using ident_run_no_brace[of w] by auto
  from g1 show "this_shape (field_repl gs)"
  proof
    assume "g1 = []"
    with r have "field_repl gs = ''{this.'' @ ((a # takeWhile is_ident_char w) @ ''}?'')" by simp
    with nb show ?thesis unfolding this_shape_def by blast
  next
    assume "g1 = ''!''"
    with r have "field_repl gs = ''{!this.'' @ ((a # takeWhile is_ident_char w) @ ''}?'')" by simp
    with nb show ?thesis unfolding this_shape_def by blast
  qed
qed

lemma nomatch_self: "at_brace p \<Longrightarrow> blind p \<Longrightarrow> shaped p f \<Longrightarrow> nomatch p (re_sub p f s)"
  by (rule nomatch_re_sub) auto

lemma nomatch_pass:
  "at_brace p \<Longrightarrow> blind p \<Longrightarrow> at_brace m \<Longrightarrow> shaped m f \<Longrightarrow> nomatch p s
     \<Longrightarrow> nomatch p (re_sub m f s)"
  by (rule nomatch_re_sub) auto

lemmas pass_facts =
  at_brace_patterns blind_push blind_peek blind_pop blind_call blind_action blind_field
  shaped_push shaped_peek shaped_pop shaped_call shaped_action shaped_field

lemma transform_nomatch:
  "nomatch push_pattern (transform_predicates_for_js s)"
  "nomatch peek_pattern (transform_predicates_for_js s)"
  "nomatch pop_pattern (transform_predicates_for_js s)"
  "nomatch call_pattern (transform_predicates_for_js s)"
  "nomatch action_pattern (transform_predicates_for_js s)"
  "nomatch field_pattern (transform_predicates_for_js s)"
  unfolding transform_predicates_for_js_def Let_def
  by (intro nomatch_pass nomatch_self pass_facts)+

text \<open>
  C9: the Call Rewriter is idempotent. Every replacement starts with \<^verbatim>\<open>{this.\<close> or
  \<^verbatim>\<open>{!this.\<close>, which no pattern matches, and has no other opening brace, so the output of
  the six passes holds no match of any of the six patterns and a second run changes
  nothing.
\<close>

theorem call_rewriter_idempotent:
  "transform_predicates_for_js (transform_predicates_for_js s) = transform_predicates_for_js s"
proof -
  let ?t = "transform_predicates_for_js s"
  have "transform_predicates_for_js ?t =
     re_sub field_pattern field_repl (re_sub action_pattern action_repl
       (re_sub call_pattern call_repl (re_sub pop_pattern pop_repl
         (re_sub peek_pattern peek_repl (re_sub push_pattern push_repl ?t)))))"
    by (simp add: transform_predicates_for_js_def Let_def)
  also have "\<dots> = ?t"
    by (simp only: re_sub_nomatch[OF transform_nomatch(1)] re_sub_nomatch[OF transform_nomatch(2)]
        re_sub_nomatch[OF transform_nomatch(3)] re_sub_nomatch[OF transform_nomatch(4)]
        re_sub_nomatch[OF transform_nomatch(5)] re_sub_nomatch[OF transform_nomatch(6)])
  finally show ?thesis .
qed

section \<open>Rewriting one fragment in a text\<close>






section \<open>Call Rewriter: the push action\<close>






section \<open>Call Rewriter: a bare call\<close>













section \<open>Coverage Verifier without its artifacts\<close>

text \<open>
  C3: the claim holds for the three stages that test \<^verbatim>\<open>exists()\<close> before they read, and
  fails for \<^verbatim>\<open>verify_predicates\<close>, which reads both artifacts untested: with no lexer
  artifact, or with the lexer artifact and no parser artifact, it raises
  \<^verbatim>\<open>FileNotFoundError\<close> and returns no status.
\<close>

theorem verify_predicates_raises_without_artifact:
  "fst (verify_predicates Map.empty) = Inl FileNotFoundError
   \<and> fst (verify_predicates [lexer_path \<mapsto> lexer_predicates_js]) = Inl FileNotFoundError"
  by (simp add: verify_predicates_def read_text_def lexer_path_def parser_path_def)

theorem verify_predicates_raises_without_artifact_witness:
  "fst (verify_predicates Map.empty) = Inl FileNotFoundError"
  by (rule verify_predicates_raises_without_artifact[THEN conjunct1])

section \<open>Pipeline Driver\<close>

lemma run_steps_four:
  "run_steps [(n1, s1), (n2, s2), (n3, s3), (n4, s4)] fs =
     (if fst (s1 fs) \<noteq> Inr True then (case fst (s1 fs) of Inl e \<Rightarrow> Inl e | Inr b \<Rightarrow> Inr 1, [n1], snd (s1 fs))
      else if fst (s2 (snd (s1 fs))) \<noteq> Inr True
        then (case fst (s2 (snd (s1 fs))) of Inl e \<Rightarrow> Inl e | Inr b \<Rightarrow> Inr 1, [n1, n2], snd (s2 (snd (s1 fs))))
      else if fst (s3 (snd (s2 (snd (s1 fs))))) \<noteq> Inr True
        then (case fst (s3 (snd (s2 (snd (s1 fs))))) of Inl e \<Rightarrow> Inl e | Inr b \<Rightarrow> Inr 1, [n1, n2, n3],
              snd (s3 (snd (s2 (snd (s1 fs))))))
      else if fst (s4 (snd (s3 (snd (s2 (snd (s1 fs))))))) \<noteq> Inr True
        then (case fst (s4 (snd (s3 (snd (s2 (snd (s1 fs))))))) of Inl e \<Rightarrow> Inl e | Inr b \<Rightarrow> Inr 1,
              [n1, n2, n3, n4], snd (s4 (snd (s3 (snd (s2 (snd (s1 fs))))))))
      else (Inr 0, [n1, n2, n3, n4], snd (s4 (snd (s3 (snd (s2 (snd (s1 fs)))))))))"
proof -
  have step: "run_steps ((n, s) # rest) w =
      (if fst (s w) \<noteq> Inr True then (case fst (s w) of Inl e \<Rightarrow> Inl e | Inr b \<Rightarrow> Inr 1, [n], snd (s w))
       else (case run_steps rest (snd (s w)) of (r, called, w') \<Rightarrow> (r, n # called, w')))"
    for n s rest w
    by (cases "s w") (auto split: sum.splits)
  show ?thesis
    by (simp only: step run_steps.simps(1) split: if_splits prod.splits) auto
qed

text \<open>
  C8: \<^verbatim>\<open>main\<close> calls the four stage functions in the order Transform, Generate, Inject,
  Verify, each on the file system the one before left; the calls end with the first stage
  that does not return success; the exit code is 0 when all four returned success and 1
  otherwise.
\<close>

theorem main_order_and_exit_code:
  "(let t = transform_grammar fs;
        g = generate_antlr run_antlr (snd t);
        i = add_predicate_implementations (snd g);
        v = verify_predicates (snd i);
        ok = (fst t = Inr True \<and> fst g = Inr True \<and> fst i = Inr True \<and> fst v = Inr True)
    in fst (snd (main run_antlr fs)) =
         (if fst t \<noteq> Inr True then [''Transform grammar'']
          else if fst g \<noteq> Inr True then [''Transform grammar'', ''Generate JavaScript'']
          else if fst i \<noteq> Inr True
            then [''Transform grammar'', ''Generate JavaScript'', ''Add predicates'']
          else [''Transform grammar'', ''Generate JavaScript'', ''Add predicates'',
                ''Verify coverage''])
       \<and> snd (snd (main run_antlr fs)) =
         (if fst t \<noteq> Inr True then snd t
          else if fst g \<noteq> Inr True then snd g
          else if fst i \<noteq> Inr True then snd i
          else snd v)
       \<and> exit_code (fst (main run_antlr fs)) = (if ok then 0 else 1))"
  unfolding main_def steps_def run_steps_four Let_def
  by (auto simp: exit_code_def split: sum.splits)

theorem main_order_and_exit_code_witness:
  "fst (snd (main (\<lambda>fs. Inl FileNotFoundError) Map.empty)) = [''Transform grammar'']
   \<and> snd (snd (main (\<lambda>fs. Inl FileNotFoundError) Map.empty)) = Map.empty
   \<and> exit_code (fst (main (\<lambda>fs. Inl FileNotFoundError) Map.empty)) = 1"
proof -
  have t: "transform_grammar Map.empty = (Inr False, Map.empty)"
    by (simp add: transform_grammar_def)
  from main_order_and_exit_code[of Map.empty "\<lambda>fs. Inl FileNotFoundError"] show ?thesis
    by (simp add: Let_def t)
qed

section \<open>Predicate Injection Stage: what it writes\<close>

lemma rstrip_decomp: "\<exists>ws. c = rstrip c @ ws \<and> (\<forall>x \<in> set ws. is_space x)"
proof -
  have "c = rev (takeWhile is_space (rev c) @ dropWhile is_space (rev c))" by simp
  also have "\<dots> = rstrip c @ rev (takeWhile is_space (rev c))"
    unfolding rstrip_def by (simp only: rev_append)
  finally have "c = rstrip c @ rev (takeWhile is_space (rev c))" .
  moreover have "\<forall>x \<in> set (rev (takeWhile is_space (rev c))). is_space x"
    by (auto dest: set_takeWhileD)
  ultimately show ?thesis by blast
qed

lemma rstrip_last: "rstrip c = [] \<or> \<not> is_space (last (rstrip c))"
proof (cases "dropWhile is_space (rev c)")
  case Nil
  then show ?thesis by (simp add: rstrip_def)
next
  case (Cons y ys)
  then have "\<not> is_space y" using hd_dropWhile[of is_space "rev c"] by auto
  with Cons show ?thesis by (simp add: rstrip_def)
qed

lemma paths_differ: "lexer_path \<noteq> parser_path"
  by (simp add: lexer_path_def parser_path_def)

lemma add_predicate_implementations_present:
  assumes "fs lexer_path = Some lexer_content" and "fs parser_path = Some parser_content"
  shows "add_predicate_implementations fs =
           (Inr True, fs(lexer_path \<mapsto> rstrip lexer_content @ lexer_predicates_js,
                         parser_path \<mapsto> rstrip parser_content @ parser_predicates_js))"
  using assms paths_differ
  by (simp add: add_predicate_implementations_def write_text_def Let_def)

lemma lexer_block_head: "\<exists>t. lexer_predicates_js = CHR 0x0A # t"
  by (simp add: lexer_predicates_js_def unlines_def lexer_predicates_lines_def)

text \<open>
  C10: with both artifacts present the stage returns success and writes, for each artifact,
  its text without the trailing whitespace followed by the fixed block. The text kept is a
  prefix of the original, the part dropped is whitespace only, and the text kept does not
  end with whitespace. The original text itself need not be a prefix of the result: for
  the lexer artifact \<^verbatim>\<open>x\<close> followed by a space it is not.
\<close>

theorem injection_strips_trailing_whitespace:
  assumes "fs lexer_path = Some lexer_content" and "fs parser_path = Some parser_content"
  shows "add_predicate_implementations fs =
           (Inr True, fs(lexer_path \<mapsto> rstrip lexer_content @ lexer_predicates_js,
                         parser_path \<mapsto> rstrip parser_content @ parser_predicates_js))
         \<and> (\<exists>ws. lexer_content = rstrip lexer_content @ ws \<and> (\<forall>c \<in> set ws. is_space c))
         \<and> (\<exists>ws. parser_content = rstrip parser_content @ ws \<and> (\<forall>c \<in> set ws. is_space c))
         \<and> (rstrip lexer_content = [] \<or> \<not> is_space (last (rstrip lexer_content)))
         \<and> (rstrip parser_content = [] \<or> \<not> is_space (last (rstrip parser_content)))
         \<and> \<not> prefix ''x '' (rstrip ''x '' @ lexer_predicates_js)"
proof -
  obtain t where t: "lexer_predicates_js = CHR 0x0A # t" using lexer_block_head by blast
  have "rstrip ''x '' = ''x''" by (simp add: rstrip_def is_space_def code_point_def)
  then have np: "\<not> prefix ''x '' (rstrip ''x '' @ lexer_predicates_js)" by (simp add: t)
  show ?thesis
    by (intro conjI add_predicate_implementations_present[OF assms] rstrip_decomp rstrip_last np)
qed

theorem injection_strips_trailing_whitespace_witness:
  "add_predicate_implementations [lexer_path \<mapsto> ''x '', parser_path \<mapsto> ''y'']
     = (Inr True, [lexer_path \<mapsto> ''x '', parser_path \<mapsto> ''y'']
          (lexer_path \<mapsto> rstrip ''x '' @ lexer_predicates_js,
           parser_path \<mapsto> rstrip ''y'' @ parser_predicates_js))"
proof -
  have a: "[lexer_path \<mapsto> ''x '', parser_path \<mapsto> ''y''] lexer_path = Some ''x ''"
    using paths_differ by simp
  have b: "[lexer_path \<mapsto> ''x '', parser_path \<mapsto> ''y''] parser_path = Some ''y''"
    by simp
  show ?thesis by (rule injection_strips_trailing_whitespace[OF a b, THEN conjunct1])
qed

section \<open>Coverage Verifier: the definitions of an artifact\<close>

lemma match_lit_first:
  "match_items (Lit (a # l) # p') (c # cs) =
     (if c = a then
        (case match_items (Lit l # p') cs of
           None \<Rightarrow> None
         | Some (gs, r) \<Rightarrow> Some ((a # hd gs) # tl gs, r))
      else None)"
  by (auto split: option.splits if_splits)

lemma drop_match_end:
  assumes "match_items (Lit (a # l) # p') (c # cs) = Some (gs, r)"
  shows "drop (length (c # cs) - length r - 1) cs = r"
proof -
  from match_items_concat[OF assms] have s: "c # cs = concat gs @ r" .
  from assms obtain gs' where "gs = (a # l) # gs'"
    by (auto split: option.splits if_splits)
  then obtain m where m: "concat gs = c # m" using s by (cases "concat gs") auto
  with s have cs: "cs = m @ r" by simp
  have "length (c # cs) - length r - 1 = length m" using cs by simp
  then show ?thesis using cs by simp
qed

lemma re_findall_unfold:
  "re_findall (Lit (a # l) # p') k (c # cs) =
     (case match_items (Lit (a # l) # p') (c # cs) of
        None \<Rightarrow> re_findall (Lit (a # l) # p') k cs
      | Some (gs, r) \<Rightarrow> (gs ! k) # re_findall (Lit (a # l) # p') k r)"
proof (cases "match_items (Lit (a # l) # p') (c # cs)")
  case None
  then show ?thesis by (simp add: re_match_def)
next
  case (Some x)
  obtain gs r where x: "x = (gs, r)" by (cases x)
  from drop_match_end[OF Some[unfolded x]] Some x show ?thesis
    by (simp add: re_match_def)
qed

lemma re_findall_skip:
  "c \<noteq> a \<Longrightarrow> re_findall (Lit (a # l) # p') k (c # cs) = re_findall (Lit (a # l) # p') k cs"
  by (simp add: re_findall_unfold match_lit_first del: re_findall.simps match_items.simps)

lemma re_findall_at:
  "re_findall (Lit (a # l) # p') k (a # cs) =
     (case match_items (Lit l # p') cs of
        None \<Rightarrow> re_findall (Lit (a # l) # p') k cs
      | Some (gs, r) \<Rightarrow> ((a # hd gs) # tl gs) ! k # re_findall (Lit (a # l) # p') k r)"
  by (simp add: re_findall_unfold match_lit_first del: re_findall.simps match_items.simps
      split: option.splits)

lemmas class_defs = is_word_def is_space_def is_ascii_alpha_def is_digit_def
  is_latin1_alnum_def is_ident_char_def code_point_def

lemma space_not_word: "is_space c \<Longrightarrow> \<not> is_word c"
  by (auto simp: class_defs Let_def)

lemma space_not_eq: "is_space c \<Longrightarrow> c \<noteq> CHR ''='' \<and> c \<noteq> CHR ''.''"
  by (auto simp: class_defs Let_def)

lemma prototype_word: "c \<in> set ''prototype'' \<Longrightarrow> is_word c"
  by (auto simp: class_defs)

lemma lit_chars:
  assumes "\<forall>c \<in> set cls. is_word c" and "x \<in> set (cls @ ''.prototype.'')"
  shows "is_word x \<or> x = CHR ''.''"
  using assms prototype_word by auto

lemma match_items_append:
  "match_items (p @ q) s =
     (case match_items p s of
        None \<Rightarrow> None
      | Some (gs, r) \<Rightarrow>
          (case match_items q r of None \<Rightarrow> None | Some (gs', r') \<Rightarrow> Some (gs @ gs', r')))"
  by (induction p arbitrary: s) (auto split: option.splits)

lemma match_items_stop':
  assumes "b = [] \<or> (\<forall>it \<in> set p. \<not> consumes it (hd b))"
  shows "match_items p (u @ b) = map_option (\<lambda>(gs, r). (gs, r @ b)) (match_items p u)"
proof (cases b)
  case Nil
  then show ?thesis by (cases "match_items p u") auto
next
  case (Cons x v)
  with assms have "\<forall>it \<in> set p. \<not> consumes it x" by simp
  from match_items_stop[OF this, of u v] Cons show ?thesis by simp
qed

text \<open>The end of the pattern, \<^verbatim>\<open>\s*=\<close>, before whitespace that no equals sign follows.\<close>

lemma tail_stop:
  assumes ws: "\<forall>c \<in> set ws. is_space c" and t: "t = [] \<or> hd t \<noteq> CHR ''='' \<and> \<not> is_space (hd t)"
  shows "match_items [Star is_space, Lit ''=''] (u @ ws @ t)
           = map_option (\<lambda>(gs, r). (gs, r @ ws @ t)) (match_items [Star is_space, Lit ''=''] u)"
proof (cases "\<forall>c \<in> set u. is_space c")
  case True
  have tw: "takeWhile is_space (u @ ws @ t) = u @ ws"
    and dw: "dropWhile is_space (u @ ws @ t) = t"
    using True ws t by (cases t; simp add: takeWhile_append2 dropWhile_append2)+
  have nt: "take (Suc 0) t \<noteq> ''=''" using t by (cases t) auto
  have u1: "takeWhile is_space u = u" and u2: "dropWhile is_space u = []"
    using True by simp_all
  show ?thesis
    unfolding match_items.simps match_item.simps tw dw u1 u2
    using nt by simp
next
  case False
  then obtain y where y: "y \<in> set u" "\<not> is_space y" by auto
  then have tw: "takeWhile is_space (u @ ws @ t) = takeWhile is_space u"
    and dw: "dropWhile is_space (u @ ws @ t) = dropWhile is_space u @ ws @ t"
    by (simp_all add: takeWhile_append1 dropWhile_append1)
  from y have "dropWhile is_space u \<noteq> []" by (metis dropWhile_eq_Nil_conv)
  then obtain z zs where z: "dropWhile is_space u = z # zs" by (cases "dropWhile is_space u") auto
  show ?thesis by (simp add: tw dw z)
qed

lemma impl_match_stop:
  assumes cls: "\<forall>c \<in> set cls. is_word c"
    and ws: "\<forall>c \<in> set ws. is_space c" and t: "t = [] \<or> barrier (hd t)"
  shows "match_items (impl_pattern cls) (u @ ws @ t)
           = map_option (\<lambda>(gs, r). (gs, r @ ws @ t)) (match_items (impl_pattern cls) u)"
proof -
  let ?p = "[Lit (cls @ ''.prototype.''), Plus is_word]"
  let ?q = "[Star is_space, Lit ''='']"
  let ?b = "ws @ t"
  have pq: "impl_pattern cls = ?p @ ?q" by (simp add: impl_pattern_def)
  have hdb: "?b = [] \<or> (\<not> is_word (hd ?b) \<and> hd ?b \<noteq> CHR ''.'')"
  proof (cases ws)
    case Nil
    with t show ?thesis by (auto simp: barrier_def)
  next
    case (Cons w ws')
    with ws have "is_space w" by simp
    with Cons space_not_word space_not_eq show ?thesis by auto
  qed
  have "?b = [] \<or> (\<forall>it \<in> set ?p. \<not> consumes it (hd ?b))"
    using hdb lit_chars[OF cls] by auto
  from match_items_stop'[OF this, of u]
  have 1: "match_items ?p (u @ ?b) = map_option (\<lambda>(gs, r). (gs, r @ ?b)) (match_items ?p u)" .
  have t': "t = [] \<or> hd t \<noteq> CHR ''='' \<and> \<not> is_space (hd t)"
    using t by (auto simp: barrier_def)
  note 2 = tail_stop[OF ws t']
  show ?thesis
    unfolding pq match_items_append 1
    by (cases "match_items ?p u") (auto simp: 2 split: option.splits simp del: match_items.simps)
qed

lemma impl_re_match_stop:
  assumes "\<forall>c \<in> set cls. is_word c" and "\<forall>c \<in> set ws. is_space c" and "t = [] \<or> barrier (hd t)"
  shows "re_match (impl_pattern cls) (u @ ws @ t) = re_match (impl_pattern cls) u"
  unfolding re_match_def impl_match_stop[OF assms]
  by (cases "match_items (impl_pattern cls) u") auto

lemma impl_findall_append:
  assumes cls: "\<forall>c \<in> set cls. is_word c"
    and ws: "\<forall>c \<in> set ws. is_space c" and t: "t = [] \<or> barrier (hd t)"
  shows "re_findall (impl_pattern cls) k (u @ ws @ t)
           = re_findall (impl_pattern cls) k u @ re_findall (impl_pattern cls) k (ws @ t)"
proof (induction u rule: length_induct)
  case (1 u)
  show ?case
  proof (cases u)
    case Nil
    then show ?thesis by simp
  next
    case (Cons c cs)
    note m = impl_re_match_stop[OF cls ws t, of "c # cs"]
    show ?thesis
    proof (cases "re_match (impl_pattern cls) (c # cs)")
      case None
      with m have "re_match (impl_pattern cls) (c # cs @ ws @ t) = None" by simp
      with None Cons "1.IH"[rule_format, of cs] show ?thesis by simp
    next
      case (Some a)
      obtain gs e where a: "a = (gs, e)" by (cases a)
      from re_match_SomeD[OF Some[unfolded a]] have e: "e \<le> length (c # cs)" by blast
      then have d: "drop (e - 1) (cs @ ws @ t) = drop (e - 1) cs @ ws @ t" by simp
      have l: "length (drop (e - 1) cs) < length u" using Cons by simp
      from m Some a have "re_match (impl_pattern cls) (c # cs @ ws @ t) = Some (gs, e)" by simp
      with Some a Cons d "1.IH"[rule_format, OF l] show ?thesis by simp
    qed
  qed
qed

lemma impl_findall_skip:
  assumes cls: "\<forall>c \<in> set cls. is_word c" and ne: "cls \<noteq> []" and c: "\<not> is_word c"
  shows "re_findall (impl_pattern cls) k (c # s) = re_findall (impl_pattern cls) k s"
proof -
  from ne obtain a cls' where a: "cls = a # cls'" by (cases cls) auto
  with cls c have "c \<noteq> a" by auto
  then show ?thesis
    unfolding impl_pattern_def a by (simp add: re_findall_skip del: re_findall.simps)
qed

lemma impl_findall_spaces:
  assumes cls: "\<forall>c \<in> set cls. is_word c" and ne: "cls \<noteq> []"
    and ws: "\<forall>c \<in> set ws. is_space c"
  shows "re_findall (impl_pattern cls) k (ws @ t) = re_findall (impl_pattern cls) k t"
  using ws
proof (induction ws)
  case Nil
  then show ?case by simp
next
  case (Cons w ws)
  then have "\<not> is_word w" using space_not_word by simp
  from impl_findall_skip[OF cls ne this] Cons show ?case by simp
qed

lemma impl_findall_cut:
  assumes cls: "\<forall>c \<in> set cls. is_word c" and ne: "cls \<noteq> []"
    and ws: "\<forall>c \<in> set ws. is_space c" and x: "barrier x"
  shows "re_findall (impl_pattern cls) k (u @ ws @ x # v)
           = re_findall (impl_pattern cls) k u @ re_findall (impl_pattern cls) k v"
proof -
  have "re_findall (impl_pattern cls) k (u @ ws @ x # v)
          = re_findall (impl_pattern cls) k u @ re_findall (impl_pattern cls) k (ws @ x # v)"
    by (rule impl_findall_append[OF cls ws]) (simp add: x)
  also have "re_findall (impl_pattern cls) k (ws @ x # v) = re_findall (impl_pattern cls) k (x # v)"
    by (rule impl_findall_spaces[OF cls ne ws])
  also have "\<dots> = re_findall (impl_pattern cls) k v"
    by (rule impl_findall_skip[OF cls ne]) (use x in \<open>simp add: barrier_def\<close>)
  finally show ?thesis .
qed

lemma impl_findall_rstrip:
  assumes cls: "\<forall>c \<in> set cls. is_word c" and ne: "cls \<noteq> []"
    and ws: "\<forall>c \<in> set ws. is_space c"
  shows "re_findall (impl_pattern cls) k (u @ ws) = re_findall (impl_pattern cls) k u"
proof -
  have "re_findall (impl_pattern cls) k (u @ ws @ [])
          = re_findall (impl_pattern cls) k u @ re_findall (impl_pattern cls) k (ws @ [])"
    by (rule impl_findall_append[OF cls ws]) simp
  also have "re_findall (impl_pattern cls) k (ws @ []) = re_findall (impl_pattern cls) k []"
    by (rule impl_findall_spaces[OF cls ne ws])
  finally show ?thesis by simp
qed

lemma word_class_names:
  "\<forall>c \<in> set ''SqlBaseLexer''. is_word c" "\<forall>c \<in> set ''SqlBaseParser''. is_word c"
  by (simp_all add: class_defs)

section \<open>Block Stripper\<close>

lemma remove_block_from_unfold:
  "remove_block_from bn (c # cs) =
     (case match_items (block_pattern bn) (c # cs) of
        None \<Rightarrow> c # remove_block_from bn cs
      | Some (gs, r) \<Rightarrow> remove_block_from bn (dropWhile is_blank (skip_braces 1 r)))"
proof (cases "match_items (block_pattern bn) (c # cs)")
  case None
  then show ?thesis by (simp add: re_match_def)
next
  case (Some x)
  obtain gs r where x: "x = (gs, r)" by (cases x)
  from Some x have m: "match_items (Lit (CHR ''@'' # bn) # [Star is_space, Lit ''{'']) (c # cs) = Some (gs, r)"
    by (simp add: block_pattern_def)
  from drop_match_end[OF m] Some x show ?thesis
    by (simp add: re_match_def)
qed

lemma skip_braces_balanced:
  "balanced_from d s \<Longrightarrow> skip_braces (Suc n + d) (s @ r) = skip_braces (Suc n) r"
proof (induction s arbitrary: d)
  case Nil
  then show ?case by simp
next
  case (Cons c s)
  show ?case
  proof (cases "c = CHR ''{''")
    case True
    with Cons.prems have "balanced_from (Suc d) s" by simp
    from Cons.IH[OF this] True show ?thesis by simp
  next
    case False
    show ?thesis
    proof (cases "c = CHR ''}''")
      case True
      with Cons.prems obtain d' where d: "d = Suc d'" and b: "balanced_from d' s"
        by (cases d) auto
      from Cons.IH[OF b] True d show ?thesis by simp
    next
      case nc: False
      with False Cons.prems have "balanced_from d s" by simp
      from Cons.IH[OF this] False nc show ?thesis by simp
    qed
  qed
qed

lemma skip_braces_block:
  assumes "balanced_from 0 body"
  shows "skip_braces 1 (body @ CHR ''}'' # r) = r"
proof -
  from skip_braces_balanced[OF assms, of 0 "CHR ''}'' # r"]
  have "skip_braces 1 (body @ CHR ''}'' # r) = skip_braces 1 (CHR ''}'' # r)" by simp
  also have "\<dots> = r" by (cases r) simp_all
  finally show ?thesis .
qed


lemma at_classes: "\<not> is_space CHR ''@''" "\<not> is_word CHR ''@''" "\<not> is_space CHR ''{''"
  by (simp_all add: class_defs)

lemma block_match:
  assumes ws: "\<forall>c \<in> set ws. is_space c"
  shows "match_items (block_pattern bn) (CHR ''@'' # bn @ ws @ CHR ''{'' # r)
           = Some ([CHR ''@'' # bn, ws, ''{''], r)"
proof -
  have tw: "takeWhile is_space (ws @ CHR ''{'' # r) = ws"
    and dw: "dropWhile is_space (ws @ CHR ''{'' # r) = CHR ''{'' # r"
    using ws at_classes(3) by (simp_all add: takeWhile_append2 dropWhile_append2)
  show ?thesis
    by (simp add: block_pattern_def tw dw)
qed

lemma block_match_stop:
  assumes bn: "CHR ''@'' \<notin> set bn" and t: "t = [] \<or> hd t = CHR ''@''"
  shows "match_items (block_pattern bn) ((c # u) @ t)
           = map_option (\<lambda>(gs, r). (gs, r @ t)) (match_items (block_pattern bn) (c # u))"
proof -
  have st: "t = [] \<or> (\<forall>it \<in> set [Lit bn, Star is_space, Lit ''{'']. \<not> consumes it (hd t))"
    using bn t at_classes(1) by auto
  note s = match_items_stop'[OF st, of u]
  show ?thesis
    unfolding block_pattern_def append_Cons match_lit_first s
    by (cases "match_items [Lit bn, Star is_space, Lit ''{''] u") (auto)
qed

lemma remove_block_from_gap:
  assumes bn: "CHR ''@'' \<notin> set bn" and t: "t = [] \<or> hd t = CHR ''@''"
    and g: "nomatch (block_pattern bn) g"
  shows "remove_block_from bn (g @ t) = g @ remove_block_from bn t"
  using g
proof (induction g)
  case Nil
  then show ?case by simp
next
  case (Cons c g)
  then have n: "re_match (block_pattern bn) (c # g) = None" and g': "nomatch (block_pattern bn) g"
    by simp_all
  from n have "match_items (block_pattern bn) (c # g) = None"
    by (auto simp: re_match_def split: option.splits)
  with block_match_stop[OF bn t, of c g]
  have "match_items (block_pattern bn) (c # g @ t) = None" by simp
  with Cons.IH[OF g'] show ?case
    by (simp add: remove_block_from_unfold del: remove_block_from.simps)
qed

lemma length_skip_braces: "length (skip_braces n s) \<le> length s"
  by (induction n s rule: skip_braces.induct) auto


lemma word_no_at: "\<forall>c \<in> set bn. is_word c \<Longrightarrow> CHR ''@'' \<notin> set bn"
  using at_classes(2) by auto

lemma remove_block_from_open:
  assumes "\<forall>c \<in> set ws. is_space c"
  shows "remove_block_from bn (CHR ''@'' # bn @ ws @ CHR ''{'' # r)
           = remove_block_from bn (dropWhile is_blank (skip_braces 1 r))"
  by (simp add: remove_block_from_unfold block_match[OF assms] del: remove_block_from.simps)

lemma render_hd: "render tag rs = [] \<or> hd (render tag rs) = CHR ''@''"
  by (induction tag rs rule: render.induct) auto

lemma blank_classes: "\<not> is_blank CHR ''@''"
  by (simp add: is_blank_def)

lemma dropWhile_blanks:
  assumes "list_all is_blank blanks" and "rest = [] \<or> \<not> is_blank (hd rest)"
  shows "dropWhile is_blank (blanks @ rest) = rest"
proof (cases rest)
  case Nil
  with assms(1) show ?thesis by (simp add: list_all_iff)
next
  case (Cons y ys)
  with assms(2) have "\<not> is_blank y" by simp
  with assms(1) Cons show ?thesis by (simp add: list_all_iff dropWhile_append3)
qed

lemma remove_block_from_render:
  assumes tag: "\<forall>c \<in> set tag. is_word c" and ok: "list_all (region_ok tag) rs"
    and t: "t = [] \<or> hd t = CHR ''@''"
  shows "remove_block_from tag (render tag rs @ t) = kept rs @ remove_block_from tag t"
  using ok
proof (induction rs)
  case Nil
  then show ?case by simp
next
  case (Cons r rs)
  obtain ws body blanks gap where r: "r = (ws, body, blanks, gap)" by (cases r)
  with Cons.prems have ws: "\<forall>c \<in> set ws. is_space c" and body: "balanced_from 0 body"
    and blanks: "list_all is_blank blanks" and gap1: "list_all (\<lambda>c. \<not> is_blank c) (take 1 gap)"
    and gap: "nomatch (block_pattern tag) gap" and rs: "list_all (region_ok tag) rs"
    by (simp_all add: list_all_iff)
  have hd: "render tag rs @ t = [] \<or> hd (render tag rs @ t) = CHR ''@''"
    using render_hd[of tag rs] t by (cases "render tag rs") auto
  have rest: "gap @ render tag rs @ t = [] \<or> \<not> is_blank (hd (gap @ render tag rs @ t))"
  proof (cases gap)
    case Nil
    with hd blank_classes show ?thesis by auto
  next
    case (Cons y ys)
    with gap1 show ?thesis by simp
  qed
  have "remove_block_from tag (render tag (r # rs) @ t)
          = remove_block_from tag (CHR ''@'' # tag @ ws @ CHR ''{'' #
              (body @ CHR ''}'' # blanks @ gap @ render tag rs @ t))"
    by (simp add: r)
  also have "\<dots> = remove_block_from tag
      (dropWhile is_blank (skip_braces 1 (body @ CHR ''}'' # blanks @ gap @ render tag rs @ t)))"
    by (rule remove_block_from_open[OF ws])
  also have "skip_braces 1 (body @ CHR ''}'' # blanks @ gap @ render tag rs @ t)
               = blanks @ gap @ render tag rs @ t"
    by (rule skip_braces_block[OF body])
  also have "dropWhile is_blank (blanks @ gap @ render tag rs @ t) = gap @ render tag rs @ t"
    by (rule dropWhile_blanks[OF blanks rest])
  also have "remove_block_from tag (gap @ render tag rs @ t)
               = gap @ remove_block_from tag (render tag rs @ t)"
    by (rule remove_block_from_gap[OF word_no_at[OF tag] hd gap])
  finally show ?case using Cons.IH[OF rs] by (simp add: r)
qed

lemma remove_block_from_regions:
  assumes tag: "\<forall>c \<in> set tag. is_word c" and before: "nomatch (block_pattern tag) before"
    and ok: "list_all (region_ok tag) regions" and t: "t = [] \<or> hd t = CHR ''@''"
  shows "remove_block_from tag (before @ render tag regions @ t)
           = before @ kept regions @ remove_block_from tag t"
proof -
  have hd: "render tag regions @ t = [] \<or> hd (render tag regions @ t) = CHR ''@''"
    using render_hd[of tag regions] t by (cases "render tag regions") auto
  have "remove_block_from tag (before @ render tag regions @ t)
          = before @ remove_block_from tag (render tag regions @ t)"
    by (rule remove_block_from_gap[OF word_no_at[OF tag] hd before])
  also have "remove_block_from tag (render tag regions @ t)
               = kept regions @ remove_block_from tag t"
    by (rule remove_block_from_render[OF tag ok t])
  finally show ?thesis .
qed

lemma remove_block_word_tag:
  "\<forall>c \<in> set tag. is_word c
     \<Longrightarrow> remove_block content tag = Some (Inr (remove_block_from tag content))"
  by (rule remove_block_word) (simp add: list_all_iff)

text \<open>
  C4, as amended: for a text made of a part with no occurrence of the tag followed by N
  regions \<^verbatim>\<open>@tag\<close>, whitespace, \<^verbatim>\<open>{\<close>, balanced body, \<^verbatim>\<open>}\<close>, each followed by blanks (space,
  tab, newline, carriage return) and then by text that holds no occurrence and does not
  start with a blank, the Block Stripper removes exactly the N regions with their blanks
  and returns the text outside them, character for character in its order. The result
  holds no occurrence of the tag exactly when that kept text, joined, holds none: the
  stripper makes one pass and does not look again at the text it has joined.
\<close>

theorem remove_block_strips_regions:
  assumes "\<forall>c \<in> set tag. is_word c"
    and "nomatch (block_pattern tag) before"
    and "list_all (region_ok tag) regions"
  shows "remove_block (before @ render tag regions) tag = Some (Inr (before @ kept regions))
         \<and> (\<exists>r. remove_block (before @ render tag regions) tag = Some (Inr r)
                \<and> nomatch (block_pattern tag) r
                    = nomatch (block_pattern tag) (before @ kept regions))"
proof -
  have "remove_block_from tag (before @ render tag regions @ [])
          = before @ kept regions @ remove_block_from tag []"
    by (rule remove_block_from_regions[OF assms]) simp
  then have "remove_block (before @ render tag regions) tag = Some (Inr (before @ kept regions))"
    by (simp add: remove_block_word_tag[OF assms(1)])
  then show ?thesis by simp
qed

theorem remove_block_strips_regions_witness:
  "remove_block (''grammar G;'' @ [CHR 0x0A] @ ''@members {int x; {y}}'' @ [CHR 0x0A]
       @ ''a : B ;'' @ [CHR 0x0A] @ ''@members{}c : D ;'') ''members''
     = Some (Inr (''grammar G;'' @ [CHR 0x0A] @ ''a : B ;'' @ [CHR 0x0A] @ ''c : D ;''))"
proof -
  let ?before = "''grammar G;'' @ [CHR 0x0A]"
  let ?regions = "[('' '', ''int x; {y}'', [CHR 0x0A], ''a : B ;'' @ [CHR 0x0A]),
                   ([], [], [], ''c : D ;'')]"
  have a: "\<forall>c \<in> set ''members''. is_word c" by (simp add: class_defs)
  have b: "nomatch (block_pattern ''members'') ?before"
    by (simp add: re_match_def block_pattern_def)
  have c: "list_all (region_ok ''members'') ?regions"
    by (simp add: re_match_def block_pattern_def is_space_def is_blank_def code_point_def)
  have e: "?before @ render ''members'' ?regions
             = ''grammar G;'' @ [CHR 0x0A] @ ''@members {int x; {y}}'' @ [CHR 0x0A]
               @ ''a : B ;'' @ [CHR 0x0A] @ ''@members{}c : D ;''"
    by simp
  have f: "?before @ kept ?regions = ''grammar G;'' @ [CHR 0x0A] @ ''a : B ;'' @ [CHR 0x0A] @ ''c : D ;''"
    by simp
  from remove_block_strips_regions[OF a b c, THEN conjunct1] show ?thesis
    unfolding e f .
qed

text \<open>
  The claim as stated fails: the text below holds one occurrence of \<^verbatim>\<open>@members {\<close>, with
  an empty and so balanced body; removing it joins the text around it into a new one, and
  the result holds an occurrence of the tag.
\<close>

theorem remove_block_zero_occurrences_counterexample:
  "balanced_from 0 []
   \<and> remove_block ''@mem@members {}bers {x}'' ''members'' = Some (Inr ''@members {x}'')
   \<and> re_match (block_pattern ''members'') ''@members {x}'' \<noteq> None"
  by code_simp



text \<open>
  The claim as stated fails for a tag that is not a word: the tag goes into the pattern
  unescaped, an opening parenthesis opens a group that nothing closes, and on a text that
  is not empty \<^verbatim>\<open>re.match\<close> raises \<^verbatim>\<open>re.error\<close>.
\<close>

theorem remove_block_invalid_tag_counterexample:
  "remove_block ''x'' ''('' = Some (Inl ReError)"
  by (simp add: remove_block_def class_defs)

lemma contains_prefix: "take (length sub) s = sub \<Longrightarrow> contains sub s"
  by (cases s) auto

lemma contains_skip: "c \<noteq> a \<Longrightarrow> contains (a # sub) (c # cs) = contains (a # sub) cs"
  by simp

lemma contains_at:
  "contains (a # sub) (a # cs) = (take (length sub) cs = sub \<or> contains (a # sub) cs)"
  by simp

lemma newline_classes: "is_space CHR 0x0A" "\<not> is_word CHR 0x0A"
  by (simp_all add: class_defs)

lemma impl_findall_no_literal:
  assumes cls: "\<forall>c \<in> set cls. is_word c"
    and l: "\<not> contains (cls @ ''.prototype.'') l"
  shows "re_findall (impl_pattern cls) k (l @ CHR 0x0A # rest) = re_findall (impl_pattern cls) k (CHR 0x0A # rest)"
  using l
proof (induction l)
  case Nil
  then show ?case by simp
next
  case (Cons c l)
  let ?L = "cls @ ''.prototype.''"
  from Cons.prems have np: "take (length ?L) (c # l) \<noteq> ?L" and nc: "\<not> contains ?L l"
    by auto
  have "CHR 0x0A \<notin> set ?L"
    using lit_chars[OF cls, of "CHR 0x0A"] newline_classes by auto
  from take_stop[OF this, of "c # l" rest] np
  have "take (length ?L) (c # l @ CHR 0x0A # rest) \<noteq> ?L" by simp
  then have "re_match (impl_pattern cls) (c # l @ CHR 0x0A # rest) = None"
    by (simp add: re_match_def impl_pattern_def)
  with Cons.IH[OF nc] show ?case by simp
qed

lemma closed_line_barrier: "closed_line l \<Longrightarrow> l \<noteq> [] \<and> barrier (last l)"
  by (auto simp: closed_line_def barrier_def class_defs)

lemma impl_findall_line:
  assumes cls: "\<forall>c \<in> set cls. is_word c" and ne: "cls \<noteq> []" and ok: "line_ok cls l"
  shows "re_findall (impl_pattern cls) k (l @ CHR 0x0A # rest)
           = line_impls cls k l @ re_findall (impl_pattern cls) k rest"
proof -
  have nl: "re_findall (impl_pattern cls) k (CHR 0x0A # t) = re_findall (impl_pattern cls) k t" for t
    by (rule impl_findall_skip[OF cls ne newline_classes(2)])
  show ?thesis
  proof (cases "closed_line l")
    case False
    with ok have nc: "\<not> contains (cls @ ''.prototype.'') l" by (simp add: line_ok_def)
    from impl_findall_no_literal[OF cls nc, of k rest] nl[of rest] False show ?thesis
      by (simp add: line_impls_def)
  next
    case True
    from closed_line_barrier[OF True] have "l \<noteq> []" and b: "barrier (last l)" by auto
    then obtain u where u: "l = u @ [last l]" by (metis append_butlast_last_id)
    have "re_findall (impl_pattern cls) k (u @ [] @ last l # CHR 0x0A # rest)
            = re_findall (impl_pattern cls) k u @ re_findall (impl_pattern cls) k (CHR 0x0A # rest)"
      by (rule impl_findall_cut[OF cls ne _ b]) simp
    moreover have "re_findall (impl_pattern cls) k (u @ [] @ last l # [])
            = re_findall (impl_pattern cls) k u @ re_findall (impl_pattern cls) k []"
      by (rule impl_findall_cut[OF cls ne _ b]) simp
    ultimately have "re_findall (impl_pattern cls) k ((u @ [last l]) @ CHR 0x0A # rest)
            = re_findall (impl_pattern cls) k (u @ [last l]) @ re_findall (impl_pattern cls) k rest"
      using nl[of rest] by simp
    then show ?thesis using u True by (simp add: line_impls_def)
  qed
qed

lemma impl_findall_unlines:
  assumes cls: "\<forall>c \<in> set cls. is_word c" and ne: "cls \<noteq> []"
    and ok: "list_all (line_ok cls) ls"
  shows "re_findall (impl_pattern cls) k (unlines ls) = concat (map (line_impls cls k) ls)"
  using ok
proof (induction ls)
  case Nil
  then show ?case by (simp add: unlines_def)
next
  case (Cons l ls)
  then have l: "line_ok cls l" and ih: "re_findall (impl_pattern cls) k (unlines ls)
           = concat (map (line_impls cls k) ls)" by auto
  have "unlines (l # ls) = l @ CHR 0x0A # unlines ls" by (simp add: unlines_def)
  with impl_findall_line[OF cls ne l, of k "unlines ls"] ih show ?case by simp
qed

lemma last_cons2: "last (x # y # ys) = last (y # ys)" "last [x] = x"
  by simp_all

lemma lexer_lines_ok: "list_all (line_ok ''SqlBaseLexer'') lexer_predicates_lines"
  unfolding lexer_predicates_lines_def
  by (simp add: line_ok_def closed_line_def contains_skip contains_at last_cons2
      del: contains.simps(2) last.simps)

lemma parser_lines_ok: "list_all (line_ok ''SqlBaseParser'') parser_predicates_lines"
  unfolding parser_predicates_lines_def
  by (simp add: line_ok_def closed_line_def contains_skip contains_at last_cons2
      del: contains.simps(2) last.simps)

lemma lexer_lines_impls:
  "concat (map (line_impls ''SqlBaseLexer'' 1) lexer_predicates_lines) =
     [''has_unclosed_bracketed_comment'', ''complex_type_level_counter'', ''dollar_tags'',
      ''isValidDecimal'', ''isHint'', ''isShiftRightOperator'', ''incComplexTypeLevelCounter'',
      ''decComplexTypeLevelCounter'', ''markUnclosedComment'', ''pushDollarTag'', ''popDollarTag'',
      ''matchesDollarTag'']"
  unfolding lexer_predicates_lines_def
  by (simp add: line_impls_def closed_line_def last_cons2 impl_pattern_def
      re_findall_skip re_findall_at class_defs
      del: last.simps re_findall.simps(2))

lemma parser_lines_impls:
  "concat (map (line_impls ''SqlBaseParser'' 1) parser_predicates_lines) =
     [''legacy_setops_precedence_enabled'', ''legacy_exponent_literal_as_decimal_enabled'',
      ''SQL_standard_keyword_behavior'', ''double_quoted_identifiers'',
      ''parameter_substitution_enabled'', ''legacy_identifier_clause_only'',
      ''single_character_pipe_operator_enabled'', ''isOperatorPipeStart'']"
  unfolding parser_predicates_lines_def
  by (simp add: line_impls_def closed_line_def last_cons2 impl_pattern_def
      re_findall_skip re_findall_at class_defs
      del: last.simps re_findall.simps(2))

lemma lexer_block_impls:
  "re_findall (impl_pattern ''SqlBaseLexer'') 1 lexer_predicates_js =
     [''has_unclosed_bracketed_comment'', ''complex_type_level_counter'', ''dollar_tags'',
      ''isValidDecimal'', ''isHint'', ''isShiftRightOperator'', ''incComplexTypeLevelCounter'',
      ''decComplexTypeLevelCounter'', ''markUnclosedComment'', ''pushDollarTag'', ''popDollarTag'',
      ''matchesDollarTag'']"
proof -
  have "re_findall (impl_pattern ''SqlBaseLexer'') 1 (unlines lexer_predicates_lines)
          = concat (map (line_impls ''SqlBaseLexer'' 1) lexer_predicates_lines)"
    by (rule impl_findall_unlines[OF word_class_names(1) _ lexer_lines_ok]) simp
  then show ?thesis by (simp only: lexer_predicates_js_def lexer_lines_impls)
qed

lemma parser_block_impls:
  "re_findall (impl_pattern ''SqlBaseParser'') 1 parser_predicates_js =
     [''legacy_setops_precedence_enabled'', ''legacy_exponent_literal_as_decimal_enabled'',
      ''SQL_standard_keyword_behavior'', ''double_quoted_identifiers'',
      ''parameter_substitution_enabled'', ''legacy_identifier_clause_only'',
      ''single_character_pipe_operator_enabled'', ''isOperatorPipeStart'']"
proof -
  have "re_findall (impl_pattern ''SqlBaseParser'') 1 (unlines parser_predicates_lines)
          = concat (map (line_impls ''SqlBaseParser'' 1) parser_predicates_lines)"
    by (rule impl_findall_unlines[OF word_class_names(2) _ parser_lines_ok]) simp
  then show ?thesis by (simp only: parser_predicates_js_def parser_lines_impls)
qed

lemma block_heads:
  "\<exists>t. lexer_predicates_js = [CHR 0x0A, CHR 0x0A] @ CHR ''/'' # t"
  "\<exists>t. parser_predicates_js = [CHR 0x0A, CHR 0x0A] @ CHR ''/'' # t"
  by (simp_all add: lexer_predicates_js_def parser_predicates_js_def unlines_def
      lexer_predicates_lines_def parser_predicates_lines_def)

end
